theory Spec2Isabelle
  imports Main "HOL-Library.Multiset"
begin

section \<open>A model of \<open>vector.h\<close>: raw buffers and the vector built on them\<close>

text \<open>
  The header defines two class templates. \<open>RawMemory<T>\<close> owns a block of
  uninitialised storage (a pointer \<open>buffer_\<close> and a slot count \<open>capacity_\<close>);
  \<open>Vector<T>\<close> owns one \<open>RawMemory<T>\<close> (\<open>data_\<close>) and a count \<open>size_\<close> of
  constructed elements.

  The embedding keeps the memory explicit. A buffer is a block of slots in a heap,
  addressed by a natural number; address \<open>0\<close> is \<open>nullptr\<close>. A slot is either raw
  storage or holds a live object. \<open>Vector\<close> objects live in an object store and
  are named by reference, so that \<open>this != &rhs\<close> is a comparison of references;
  locals of a member function (\<open>new_data\<close>, \<open>rhs_copy\<close>, \<open>temp\<close>) are values.
  Every operation of the element type \<open>T\<close> that the container calls is recorded
  in a log, and whether such an operation throws is decided by the element type
  from the log so far and the operation attempted.

  \<open>size_t\<close> is modelled by \<open>nat\<close>, with the one product that a caller can make
  wrap written out: \<open>n * sizeof(T)\<close> in \<open>Allocate\<close> is taken modulo \<open>2^64\<close>, since
  \<open>Reserve\<close> passes its argument on unchecked. The sizes and capacities of
  vectors that exist are bounded by the memory of the machine, which is part of
  the well-formedness of a state, so neither \<open>size_ + 1\<close> nor \<open>size_ * 2\<close> nor the
  byte count of a doubled block can wrap. The data members \<open>buffer_\<close>,
  \<open>capacity_\<close>, \<open>data_\<close> and \<open>size_\<close> are the record fields \<open>buffer_m\<close>, \<open>capacity_m\<close>,
  \<open>data_m\<close> and \<open>size_m\<close>.
\<close>

subsection \<open>Memory, element operations, outcomes\<close>

type_synonym addr = nat

type_synonym ptr = "addr \<times> nat"

datatype 'a slot = Raw | Live 'a

datatype 'a event =
    Ctor 'a
  | CopyCtor 'a
  | MoveCtor 'a
  | CopyAssign 'a
  | MoveAssign 'a
  | Dtor 'a

datatype exn = BadAlloc | ElemThrow

datatype ('r, 's) result = Ok 'r 's | Raise exn 's | Undefined

record RawMemory =
  buffer_m :: addr
  capacity_m :: nat

record Vector =
  data_m :: RawMemory
  size_m :: nat

record 'a state =
  objs :: "nat \<Rightarrow> Vector"
  heap :: "addr \<Rightarrow> 'a slot list option"
  next_addr :: addr
  avail :: nat
  slot_bytes :: nat
  log :: "'a event list"

text \<open>
  The element type: the two traits the header queries with \<open>if constexpr\<close>, the
  predicate that says which operations throw, and the value a moved-from object
  is left with.
\<close>

record 'a elem_type =
  nothrow_move_constructible :: bool
  copy_constructible :: bool
  throws :: "'a event list \<Rightarrow> 'a event \<Rightarrow> bool"
  moved_from :: "'a \<Rightarrow> 'a"

text \<open>
  A destructor never throws, and neither does a move constructor of a type whose
  \<open>is_nothrow_move_constructible\<close> trait is true.
\<close>

definition raises :: "'a elem_type \<Rightarrow> 'a event list \<Rightarrow> 'a event \<Rightarrow> bool" where
  "raises T h ev =
     (case ev of
        Dtor v \<Rightarrow> False
      | MoveCtor v \<Rightarrow> \<not> nothrow_move_constructible T \<and> throws T h ev
      | _ \<Rightarrow> throws T h ev)"

text \<open>
  The arguments of a constructor call \<open>T(std::forward<Args>(args)...)\<close>: a
  \<open>const T&\<close> (copy construction), a \<open>T&&\<close> (move construction), or anything
  else, given by the value the constructor builds. The argument object itself
  lives outside the vector's buffer.
\<close>

datatype 'a init = CopyOf 'a | MoveOf 'a | Args 'a

fun init_value :: "'a init \<Rightarrow> 'a" where
  "init_value (CopyOf v) = v"
| "init_value (MoveOf v) = v"
| "init_value (Args v) = v"

fun init_event :: "'a init \<Rightarrow> 'a event" where
  "init_event (CopyOf v) = CopyCtor v"
| "init_event (MoveOf v) = MoveCtor v"
| "init_event (Args v) = Ctor v"

fun assign_event :: "'a init \<Rightarrow> 'a event" where
  "assign_event (CopyOf v) = CopyAssign v"
| "assign_event (MoveOf v) = MoveAssign v"
| "assign_event (Args v) = CopyAssign v"

definition and_then ::
  "('r, 's) result \<Rightarrow> ('r \<Rightarrow> 's \<Rightarrow> ('q, 's) result) \<Rightarrow> ('q, 's) result" where
  "and_then r f = (case r of Ok x s \<Rightarrow> f x s | Raise e s \<Rightarrow> Raise e s | Undefined \<Rightarrow> Undefined)"

text \<open>
  \<open>on_throw r c\<close>: when \<open>r\<close> throws, run the cleanup \<open>c\<close> (a \<open>catch (...)\<close> block
  that ends in \<open>throw;\<close>, or the destructor of a local during unwinding) and
  propagate the exception. Cleanups are \<open>noexcept\<close>.
\<close>

definition on_throw ::
  "('r, 's) result \<Rightarrow> ('s \<Rightarrow> (unit, 's) result) \<Rightarrow> ('r, 's) result" where
  "on_throw r c =
     (case r of
        Raise e s \<Rightarrow> (case c s of Ok u s' \<Rightarrow> Raise e s' | _ \<Rightarrow> Undefined)
      | _ \<Rightarrow> r)"

subsection \<open>Pointers and slots\<close>

definition ptr_add :: "ptr \<Rightarrow> nat \<Rightarrow> ptr" where
  "ptr_add p n = (fst p, snd p + n)"

text \<open>Stepping a pointer to before the start of its block is undefined.\<close>

definition ptr_minus :: "ptr \<Rightarrow> nat \<Rightarrow> ptr option" where
  "ptr_minus p n = (if n \<le> snd p then Some (fst p, snd p - n) else None)"

text \<open>\<open>p - q\<close> as a \<open>size_t\<close>: defined for two pointers into one block, \<open>q\<close> not after \<open>p\<close>.\<close>

definition ptr_diff :: "ptr \<Rightarrow> ptr \<Rightarrow> nat option" where
  "ptr_diff p q = (if fst p = fst q \<and> snd q \<le> snd p then Some (snd p - snd q) else None)"

definition slot_at :: "'a state \<Rightarrow> ptr \<Rightarrow> 'a slot option" where
  "slot_at s p =
     (case heap s (fst p) of
        None \<Rightarrow> None
      | Some b \<Rightarrow> if snd p < length b then Some (b ! snd p) else None)"

definition put_slot :: "ptr \<Rightarrow> 'a slot \<Rightarrow> 'a state \<Rightarrow> 'a state" where
  "put_slot p x s =
     (case heap s (fst p) of
        None \<Rightarrow> s
      | Some b \<Rightarrow> s\<lparr>heap := (heap s)(fst p := Some (b[snd p := x]))\<rparr>)"

definition record_event :: "'a event \<Rightarrow> 'a state \<Rightarrow> 'a state" where
  "record_event ev s = s\<lparr>log := log s @ [ev]\<rparr>"

subsection \<open>Operations on one element\<close>

text \<open>Placement new: \<open>new (p) T(args...)\<close>.\<close>

definition construct_at :: "'a elem_type \<Rightarrow> ptr \<Rightarrow> 'a init \<Rightarrow> 'a state \<Rightarrow> (unit, 'a state) result" where
  "construct_at T p a s =
     (case slot_at s p of
        None \<Rightarrow> Undefined
      | Some x \<Rightarrow>
          if raises T (log s) (init_event a) then Raise ElemThrow s
          else Ok () (record_event (init_event a) (put_slot p (Live (init_value a)) s)))"

text \<open>\<open>p->~T()\<close>, \<open>std::destroy_at(p)\<close>.\<close>

definition destroy_at :: "ptr \<Rightarrow> 'a state \<Rightarrow> (unit, 'a state) result" where
  "destroy_at p s =
     (case slot_at s p of
        Some (Live v) \<Rightarrow> Ok () (record_event (Dtor v) (put_slot p Raw s))
      | _ \<Rightarrow> Undefined)"

text \<open>\<open>*p = value\<close> and \<open>*p = std::move(value)\<close> on a live element.\<close>

definition assign_at :: "'a elem_type \<Rightarrow> ptr \<Rightarrow> 'a init \<Rightarrow> 'a state \<Rightarrow> (unit, 'a state) result" where
  "assign_at T p a s =
     (case slot_at s p of
        Some (Live old) \<Rightarrow>
          if raises T (log s) (assign_event a) then Raise ElemThrow s
          else Ok () (record_event (assign_event a) (put_slot p (Live (init_value a)) s))
      | _ \<Rightarrow> Undefined)"

definition copy_construct :: "'a elem_type \<Rightarrow> ptr \<Rightarrow> ptr \<Rightarrow> 'a state \<Rightarrow> (unit, 'a state) result" where
  "copy_construct T src dst s =
     (case slot_at s src of
        Some (Live v) \<Rightarrow> construct_at T dst (CopyOf v) s
      | _ \<Rightarrow> Undefined)"

definition move_construct :: "'a elem_type \<Rightarrow> ptr \<Rightarrow> ptr \<Rightarrow> 'a state \<Rightarrow> (unit, 'a state) result" where
  "move_construct T src dst s =
     (case slot_at s src of
        Some (Live v) \<Rightarrow>
          and_then (construct_at T dst (MoveOf v) s)
            (\<lambda>u s'. Ok () (put_slot src (Live (moved_from T v)) s'))
      | _ \<Rightarrow> Undefined)"

definition copy_assign :: "'a elem_type \<Rightarrow> ptr \<Rightarrow> ptr \<Rightarrow> 'a state \<Rightarrow> (unit, 'a state) result" where
  "copy_assign T src dst s =
     (case slot_at s src of
        Some (Live v) \<Rightarrow> assign_at T dst (CopyOf v) s
      | _ \<Rightarrow> Undefined)"

definition move_assign :: "'a elem_type \<Rightarrow> ptr \<Rightarrow> ptr \<Rightarrow> 'a state \<Rightarrow> (unit, 'a state) result" where
  "move_assign T src dst s =
     (case slot_at s src of
        Some (Live v) \<Rightarrow>
          and_then (assign_at T dst (MoveOf v) s)
            (\<lambda>u s'. Ok () (put_slot src (Live (moved_from T v)) s'))
      | _ \<Rightarrow> Undefined)"

subsection \<open>The standard algorithms the header calls\<close>

text \<open>\<open>std::destroy_n(first, n)\<close>: destroys \<open>n\<close> objects, front to back.\<close>

fun destroy_n :: "ptr \<Rightarrow> nat \<Rightarrow> 'a state \<Rightarrow> (unit, 'a state) result" where
  "destroy_n p 0 s = Ok () s"
| "destroy_n p (Suc n) s =
     (case destroy_at p s of
        Ok u s' \<Rightarrow> destroy_n (ptr_add p 1) n s'
      | Raise e s' \<Rightarrow> Raise e s'
      | Undefined \<Rightarrow> Undefined)"


text \<open>
  \<open>std::uninitialized_copy_n(first, n, d_first)\<close>: copy-constructs \<open>n\<close> objects
  into raw storage, front to back. If a constructor throws, the objects already
  constructed are destroyed and the exception is rethrown.
\<close>

fun uninit_copy_loop ::
  "'a elem_type \<Rightarrow> ptr \<Rightarrow> ptr \<Rightarrow> nat \<Rightarrow> nat \<Rightarrow> 'a state \<Rightarrow> (unit, 'a state) result" where
  "uninit_copy_loop T first d_first k 0 s = Ok () s"
| "uninit_copy_loop T first d_first k (Suc n) s =
     (case copy_construct T (ptr_add first k) (ptr_add d_first k) s of
        Ok u s' \<Rightarrow> uninit_copy_loop T first d_first (Suc k) n s'
      | Raise e s' \<Rightarrow>
          (case destroy_n d_first k s' of Ok u s'' \<Rightarrow> Raise e s'' | _ \<Rightarrow> Undefined)
      | Undefined \<Rightarrow> Undefined)"

definition uninitialized_copy_n ::
  "'a elem_type \<Rightarrow> ptr \<Rightarrow> nat \<Rightarrow> ptr \<Rightarrow> 'a state \<Rightarrow> (unit, 'a state) result" where
  "uninitialized_copy_n T first n d_first s = uninit_copy_loop T first d_first 0 n s"

text \<open>\<open>std::uninitialized_move_n(first, n, d_first)\<close>: the same, move-constructing.\<close>

fun uninit_move_loop ::
  "'a elem_type \<Rightarrow> ptr \<Rightarrow> ptr \<Rightarrow> nat \<Rightarrow> nat \<Rightarrow> 'a state \<Rightarrow> (unit, 'a state) result" where
  "uninit_move_loop T first d_first k 0 s = Ok () s"
| "uninit_move_loop T first d_first k (Suc n) s =
     (case move_construct T (ptr_add first k) (ptr_add d_first k) s of
        Ok u s' \<Rightarrow> uninit_move_loop T first d_first (Suc k) n s'
      | Raise e s' \<Rightarrow>
          (case destroy_n d_first k s' of Ok u s'' \<Rightarrow> Raise e s'' | _ \<Rightarrow> Undefined)
      | Undefined \<Rightarrow> Undefined)"

definition uninitialized_move_n ::
  "'a elem_type \<Rightarrow> ptr \<Rightarrow> nat \<Rightarrow> ptr \<Rightarrow> 'a state \<Rightarrow> (unit, 'a state) result" where
  "uninitialized_move_n T first n d_first s = uninit_move_loop T first d_first 0 n s"

text \<open>
  \<open>std::copy(first, last, d_first)\<close> and \<open>std::move(first, last, d_first)\<close>: assign
  \<open>last - first\<close> elements, front to back. Nothing is rolled back when an
  assignment throws.
\<close>

fun copy_loop ::
  "'a elem_type \<Rightarrow> ptr \<Rightarrow> ptr \<Rightarrow> nat \<Rightarrow> 'a state \<Rightarrow> (unit, 'a state) result" where
  "copy_loop T src dst 0 s = Ok () s"
| "copy_loop T src dst (Suc n) s =
     (case copy_assign T src dst s of
        Ok u s' \<Rightarrow> copy_loop T (ptr_add src 1) (ptr_add dst 1) n s'
      | Raise e s' \<Rightarrow> Raise e s'
      | Undefined \<Rightarrow> Undefined)"

definition std_copy ::
  "'a elem_type \<Rightarrow> ptr \<Rightarrow> ptr \<Rightarrow> ptr \<Rightarrow> 'a state \<Rightarrow> (unit, 'a state) result" where
  "std_copy T first lastp d_first s =
     (case ptr_diff lastp first of
        None \<Rightarrow> Undefined
      | Some n \<Rightarrow> copy_loop T first d_first n s)"

fun move_loop ::
  "'a elem_type \<Rightarrow> ptr \<Rightarrow> ptr \<Rightarrow> nat \<Rightarrow> 'a state \<Rightarrow> (unit, 'a state) result" where
  "move_loop T src dst 0 s = Ok () s"
| "move_loop T src dst (Suc n) s =
     (case move_assign T src dst s of
        Ok u s' \<Rightarrow> move_loop T (ptr_add src 1) (ptr_add dst 1) n s'
      | Raise e s' \<Rightarrow> Raise e s'
      | Undefined \<Rightarrow> Undefined)"

definition std_move ::
  "'a elem_type \<Rightarrow> ptr \<Rightarrow> ptr \<Rightarrow> ptr \<Rightarrow> 'a state \<Rightarrow> (unit, 'a state) result" where
  "std_move T first lastp d_first s =
     (case ptr_diff lastp first of
        None \<Rightarrow> Undefined
      | Some n \<Rightarrow> move_loop T first d_first n s)"

text \<open>
  \<open>std::move_backward(first, last, d_last)\<close>: \<open>*(--d_last) = std::move(*(--last))\<close>
  until \<open>last\<close> reaches \<open>first\<close>.
\<close>

fun move_backward_loop ::
  "'a elem_type \<Rightarrow> ptr \<Rightarrow> ptr \<Rightarrow> nat \<Rightarrow> 'a state \<Rightarrow> (unit, 'a state) result" where
  "move_backward_loop T first d_last 0 s = Ok () s"
| "move_backward_loop T first d_last (Suc n) s =
     (case ptr_minus d_last 1 of
        None \<Rightarrow> Undefined
      | Some d \<Rightarrow>
          (case move_assign T (ptr_add first n) d s of
             Ok u s' \<Rightarrow> move_backward_loop T first d n s'
           | Raise e s' \<Rightarrow> Raise e s'
           | Undefined \<Rightarrow> Undefined))"

definition move_backward ::
  "'a elem_type \<Rightarrow> ptr \<Rightarrow> ptr \<Rightarrow> ptr \<Rightarrow> 'a state \<Rightarrow> (unit, 'a state) result" where
  "move_backward T first lastp d_last s =
     (case ptr_diff lastp first of
        None \<Rightarrow> Undefined
      | Some n \<Rightarrow> move_backward_loop T first d_last n s)"

text \<open>A local object \<open>T temp(args...)\<close> and its destructor at the end of the scope.\<close>

definition construct_local :: "'a elem_type \<Rightarrow> 'a init \<Rightarrow> 'a state \<Rightarrow> ('a, 'a state) result" where
  "construct_local T a s =
     (if raises T (log s) (init_event a) then Raise ElemThrow s
      else Ok (init_value a) (record_event (init_event a) s))"

definition destroy_local :: "'a \<Rightarrow> 'a state \<Rightarrow> (unit, 'a state) result" where
  "destroy_local v s = Ok () (record_event (Dtor v) s)"

subsection \<open>\<open>RawMemory\<close>\<close>

text \<open>
  \<open>Allocate(n)\<close>: \<open>nullptr\<close> for \<open>n = 0\<close>, otherwise
  \<open>operator new(n * sizeof(T))\<close>. The product is a \<open>size_t\<close>, so the request is
  for \<open>n * sizeof(T) mod 2^64\<close> bytes, and the block returned has as many slots
  as fit into that many bytes: \<open>n\<close> of them unless the product wraps.
  \<open>operator new\<close> throws \<open>std::bad_alloc\<close> when that many slots are not available.
  \<open>Deallocate(buf)\<close>: \<open>operator delete\<close>, which does nothing for \<open>nullptr\<close>.
\<close>

definition Allocate :: "nat \<Rightarrow> 'a state \<Rightarrow> (addr, 'a state) result" where
  "Allocate n s =
     (if n \<noteq> 0 then
        (let slots = ((n * slot_bytes s) mod 2 ^ 64) div slot_bytes s in
         if avail s < slots then Raise BadAlloc s
         else Ok (next_addr s)
                (s\<lparr>heap := (heap s)(next_addr s := Some (replicate slots Raw)),
                   next_addr := Suc (next_addr s),
                   avail := avail s - slots\<rparr>))
      else Ok 0 s)"

definition Deallocate :: "addr \<Rightarrow> 'a state \<Rightarrow> (unit, 'a state) result" where
  "Deallocate buf s =
     (if buf = 0 then Ok () s
      else (case heap s buf of
              None \<Rightarrow> Undefined
            | Some b \<Rightarrow> Ok () (s\<lparr>heap := (heap s)(buf := None), avail := avail s + length b\<rparr>)))"

text \<open>\<open>RawMemory(size_t capacity)\<close>, \<open>RawMemory()\<close>, \<open>~RawMemory()\<close>, \<open>Swap\<close>.\<close>

definition RawMemory_new :: "nat \<Rightarrow> 'a state \<Rightarrow> (RawMemory, 'a state) result" where
  "RawMemory_new capacity s =
     and_then (Allocate capacity s) (\<lambda>a s'. Ok \<lparr>buffer_m = a, capacity_m = capacity\<rparr> s')"

definition RawMemory_default :: RawMemory where
  "RawMemory_default = \<lparr>buffer_m = 0, capacity_m = 0\<rparr>"

definition RawMemory_delete :: "RawMemory \<Rightarrow> 'a state \<Rightarrow> (unit, 'a state) result" where
  "RawMemory_delete r s = Deallocate (buffer_m r) s"

definition RawMemory_Swap :: "RawMemory \<Rightarrow> RawMemory \<Rightarrow> RawMemory \<times> RawMemory" where
  "RawMemory_Swap a b =
     (a\<lparr>buffer_m := buffer_m b, capacity_m := capacity_m b\<rparr>,
      b\<lparr>buffer_m := buffer_m a, capacity_m := capacity_m a\<rparr>)"

subsection \<open>\<open>Vector\<close>: accessors\<close>

definition Size :: "'a state \<Rightarrow> nat \<Rightarrow> nat" where
  "Size s this = size_m (objs s this)"

definition Capacity :: "'a state \<Rightarrow> nat \<Rightarrow> nat" where
  "Capacity s this = capacity_m (data_m (objs s this))"

definition vbegin :: "'a state \<Rightarrow> nat \<Rightarrow> ptr" where
  "vbegin s this = (buffer_m (data_m (objs s this)), 0)"

definition vend :: "'a state \<Rightarrow> nat \<Rightarrow> ptr" where
  "vend s this = (buffer_m (data_m (objs s this)), size_m (objs s this))"

definition set_size :: "nat \<Rightarrow> nat \<Rightarrow> 'a state \<Rightarrow> 'a state" where
  "set_size this n s = s\<lparr>objs := (objs s)(this := (objs s this)\<lparr>size_m := n\<rparr>)\<rparr>"

definition set_data :: "nat \<Rightarrow> RawMemory \<Rightarrow> 'a state \<Rightarrow> 'a state" where
  "set_data this d s = s\<lparr>objs := (objs s)(this := (objs s this)\<lparr>data_m := d\<rparr>)\<rparr>"


subsection \<open>\<open>Vector\<close>: construction, destruction, reallocation\<close>

text \<open>
  \<open>Vector(const Vector& other)\<close>, building a local: the new object is the value
  returned. When a copy throws, \<open>uninitialized_copy_n\<close> has destroyed the copies
  made, and unwinding destroys the member \<open>data_\<close>, which releases the block.
\<close>

definition Vector_copy_new :: "'a elem_type \<Rightarrow> Vector \<Rightarrow> 'a state \<Rightarrow> (Vector, 'a state) result" where
  "Vector_copy_new T other s =
     and_then (RawMemory_new (size_m other) s) (\<lambda>d s1.
     and_then (on_throw (uninitialized_copy_n T (buffer_m (data_m other), 0) (size_m other)
                           (buffer_m d, 0) s1)
                 (RawMemory_delete d)) (\<lambda>u s2.
     Ok \<lparr>data_m = d, size_m = size_m other\<rparr> s2))"

text \<open>\<open>~Vector()\<close> of a local, followed by the destructor of its member \<open>data_\<close>.\<close>

definition Vector_delete :: "Vector \<Rightarrow> 'a state \<Rightarrow> (unit, 'a state) result" where
  "Vector_delete v s =
     and_then (destroy_n (buffer_m (data_m v), 0) (size_m v) s) (\<lambda>u s1.
     RawMemory_delete (data_m v) s1)"


definition MoveOrCopy ::
  "'a elem_type \<Rightarrow> ptr \<Rightarrow> nat \<Rightarrow> ptr \<Rightarrow> 'a state \<Rightarrow> (unit, 'a state) result" where
  "MoveOrCopy T from num to s =
     (if nothrow_move_constructible T \<or> \<not> copy_constructible T
      then uninitialized_move_n T from num to s
      else uninitialized_copy_n T from num to s)"

definition PlaceBackWithoutRealloc ::
  "'a elem_type \<Rightarrow> nat \<Rightarrow> 'a init \<Rightarrow> 'a state \<Rightarrow> (unit, 'a state) result" where
  "PlaceBackWithoutRealloc T this a s =
     (if Capacity s this \<ge> Size s this + 1 then construct_at T (vend s this) a s
      else Ok () s)"

text \<open>
  \<open>PlaceWithRealloc(pos, args...)\<close>. The local \<open>new_data\<close> is destroyed when the
  function is left, normally or by an exception: after the swap it holds the old
  block. \<open>size_ - pos_n\<close> is a \<open>size_t\<close> subtraction; it cannot be reached with
  \<open>pos_n > size_\<close>, since the transfer of the prefix before it is undefined then.
\<close>

definition PlaceWithRealloc ::
  "'a elem_type \<Rightarrow> nat \<Rightarrow> ptr \<Rightarrow> 'a init \<Rightarrow> 'a state \<Rightarrow> (ptr, 'a state) result" where
  "PlaceWithRealloc T this pos a s =
     (case ptr_diff pos (vbegin s this) of
        None \<Rightarrow> Undefined
      | Some pos_n \<Rightarrow>
          if Capacity s this < Size s this + 1 then
            and_then (RawMemory_new (if Size s this = 0 then 1 else Size s this * 2) s)
              (\<lambda>new_data s1.
            and_then
              (on_throw
                 (and_then (construct_at T (buffer_m new_data, pos_n) a s1) (\<lambda>u s2.
                  and_then (on_throw
                              (MoveOrCopy T (vbegin s2 this) pos_n (buffer_m new_data, 0) s2)
                              (destroy_at (buffer_m new_data, pos_n))) (\<lambda>u s3.
                  and_then (on_throw
                              (MoveOrCopy T (ptr_add (vbegin s3 this) pos_n)
                                 (Size s3 this - pos_n)
                                 (buffer_m new_data, pos_n + 1) s3)
                              (\<lambda>s'. and_then (destroy_at (buffer_m new_data, pos_n) s')
                                      (\<lambda>u. destroy_n (buffer_m new_data, 0) pos_n))) (\<lambda>u s4.
                  and_then (destroy_n (vbegin s4 this) (Size s4 this) s4) (\<lambda>u s5.
                  (case RawMemory_Swap (data_m (objs s5 this)) new_data of
                     (d, old) \<Rightarrow> Ok old (set_data this d s5)))))))
                 (RawMemory_delete new_data))
              (\<lambda>old s6.
            and_then (RawMemory_delete old s6) (\<lambda>u s7.
            Ok (ptr_add (vbegin s7 this) pos_n) s7)))
          else Ok (ptr_add (vbegin s this) pos_n) s)"

subsection \<open>\<open>Vector\<close>: adding and removing elements\<close>

definition EmplaceBack ::
  "'a elem_type \<Rightarrow> nat \<Rightarrow> 'a init \<Rightarrow> 'a state \<Rightarrow> (ptr, 'a state) result" where
  "EmplaceBack T this a s =
     and_then
       (if Capacity s this \<ge> Size s this + 1 then PlaceBackWithoutRealloc T this a s
        else and_then (PlaceWithRealloc T this (vend s this) a s) (\<lambda>p s'. Ok () s'))
       (\<lambda>u s1.
          (case ptr_minus (vend (set_size this (Size s1 this + 1) s1) this) 1 of
             None \<Rightarrow> Undefined
           | Some p \<Rightarrow> Ok p (set_size this (Size s1 this + 1) s1)))"

text \<open>\<open>PushBack(const T&)\<close> and \<open>PushBack(T&&)\<close>.\<close>

definition PushBack :: "'a elem_type \<Rightarrow> nat \<Rightarrow> 'a \<Rightarrow> 'a state \<Rightarrow> (unit, 'a state) result" where
  "PushBack T this v s = and_then (EmplaceBack T this (CopyOf v) s) (\<lambda>p s'. Ok () s')"

definition PushBack_rvalue :: "'a elem_type \<Rightarrow> nat \<Rightarrow> 'a \<Rightarrow> 'a state \<Rightarrow> (unit, 'a state) result" where
  "PushBack_rvalue T this v s = and_then (EmplaceBack T this (MoveOf v) s) (\<lambda>p s'. Ok () s')"

definition PopBack :: "nat \<Rightarrow> 'a state \<Rightarrow> (unit, 'a state) result" where
  "PopBack this s =
     and_then
       (case ptr_minus (vend s this) 1 of
          None \<Rightarrow> Undefined
        | Some p \<Rightarrow> destroy_n p 1 s)
       (\<lambda>u s1. Ok () (if Size s1 this > 0 then set_size this (Size s1 this - 1) s1 else s1))"

definition Emplace ::
  "'a elem_type \<Rightarrow> nat \<Rightarrow> ptr \<Rightarrow> 'a init \<Rightarrow> 'a state \<Rightarrow> (ptr, 'a state) result" where
  "Emplace T this pos a s =
     (case ptr_diff pos (vbegin s this) of
        None \<Rightarrow> Undefined
      | Some pos_n \<Rightarrow>
          and_then
            (if Capacity s this > Size s this then
               (if pos \<noteq> vend s this then
                  and_then (construct_local T a s) (\<lambda>temp s1.
                  and_then
                    (on_throw
                       (case ptr_minus (vend s1 this) 1 of
                          None \<Rightarrow> Undefined
                        | Some l \<Rightarrow>
                            and_then (uninitialized_move_n T l 1 (vend s1 this) s1) (\<lambda>u s2.
                            and_then (move_backward T (ptr_add (vbegin s2 this) pos_n) l
                                        (vend s2 this) s2) (\<lambda>u s3.
                            assign_at T (ptr_add (vbegin s3 this) pos_n) (MoveOf temp) s3)))
                       (destroy_local temp))
                    (\<lambda>u s4. destroy_local (moved_from T temp) s4))
                else PlaceBackWithoutRealloc T this a s)
             else and_then (PlaceWithRealloc T this (ptr_add (vbegin s this) pos_n) a s)
                    (\<lambda>p s'. Ok () s'))
            (\<lambda>u s5. Ok (ptr_add (vbegin s5 this) pos_n) (set_size this (Size s5 this + 1) s5)))"

text \<open>
  \<open>Erase(pos)\<close>. \<open>--size_\<close> is reached only after \<open>end() - 1\<close> has been formed, so
  with \<open>size_ > 0\<close>.
\<close>

definition Erase :: "'a elem_type \<Rightarrow> nat \<Rightarrow> ptr \<Rightarrow> 'a state \<Rightarrow> (ptr, 'a state) result" where
  "Erase T this pos s =
     (case ptr_diff pos (vbegin s this) of
        None \<Rightarrow> Undefined
      | Some pos_n \<Rightarrow>
          and_then (std_move T (ptr_add (vbegin s this) (pos_n + 1)) (vend s this)
                      (ptr_add (vbegin s this) pos_n) s) (\<lambda>u s1.
          (case ptr_minus (vend s1 this) 1 of
             None \<Rightarrow> Undefined
           | Some p \<Rightarrow>
               and_then (destroy_at p s1) (\<lambda>u s2.
               Ok pos (set_size this (Size s2 this - 1) s2)))))"

text \<open>\<open>Insert(pos, const T&)\<close> and \<open>Insert(pos, T&&)\<close>.\<close>

definition Insert :: "'a elem_type \<Rightarrow> nat \<Rightarrow> ptr \<Rightarrow> 'a \<Rightarrow> 'a state \<Rightarrow> (ptr, 'a state) result" where
  "Insert T this pos v s = Emplace T this pos (CopyOf v) s"

definition Insert_rvalue :: "'a elem_type \<Rightarrow> nat \<Rightarrow> ptr \<Rightarrow> 'a \<Rightarrow> 'a state \<Rightarrow> (ptr, 'a state) result" where
  "Insert_rvalue T this pos v s = Emplace T this pos (MoveOf v) s"

subsection \<open>\<open>Vector\<close>: assignment and move between two objects\<close>

text \<open>
  \<open>operator=(const Vector& rhs)\<close>. In the first branch the local \<open>rhs_copy\<close> is
  swapped with \<open>*this\<close> and destroyed at the end of its block, holding what
  \<open>*this\<close> held.
\<close>

definition Vector_assign ::
  "'a elem_type \<Rightarrow> nat \<Rightarrow> nat \<Rightarrow> 'a state \<Rightarrow> (unit, 'a state) result" where
  "Vector_assign T this rhs s =
     (if this \<noteq> rhs then
        and_then
          (if Size s rhs > Capacity s this then
             and_then (Vector_copy_new T (objs s rhs) s) (\<lambda>rhs_copy s1.
             Vector_delete (objs s1 this) (s1\<lparr>objs := (objs s1)(this := rhs_copy)\<rparr>))
           else if Size s rhs \<ge> Size s this then
             and_then (std_copy T (vbegin s rhs) (ptr_add (vbegin s rhs) (Size s this))
                         (vbegin s this) s) (\<lambda>u s1.
             uninitialized_copy_n T (ptr_add (vbegin s1 rhs) (Size s1 this))
               (Size s1 rhs - Size s1 this) (vend s1 this) s1)
           else
             and_then (std_copy T (vbegin s rhs) (vend s rhs) (vbegin s this) s) (\<lambda>u s1.
             destroy_n (ptr_add (vbegin s1 this) (Size s1 rhs))
               (Size s1 this - Size s1 rhs) s1))
          (\<lambda>u s2. Ok () (set_size this (Size s2 rhs) s2))
      else Ok () s)"

text \<open>
  \<open>RawMemory& operator=(RawMemory&& rhs)\<close> on the members \<open>data_\<close> of two
  \<open>Vector\<close> objects: four assignments, in the order of the source.
\<close>

definition set_buffer :: "nat \<Rightarrow> addr \<Rightarrow> 'a state \<Rightarrow> 'a state" where
  "set_buffer this b s = set_data this ((data_m (objs s this))\<lparr>buffer_m := b\<rparr>) s"

definition set_capacity :: "nat \<Rightarrow> nat \<Rightarrow> 'a state \<Rightarrow> 'a state" where
  "set_capacity this c s = set_data this ((data_m (objs s this))\<lparr>capacity_m := c\<rparr>) s"

definition RawMemory_move_assign :: "nat \<Rightarrow> nat \<Rightarrow> 'a state \<Rightarrow> 'a state" where
  "RawMemory_move_assign this rhs s =
     (let s1 = set_buffer this (buffer_m (data_m (objs s rhs))) s;
          s2 = set_capacity this (capacity_m (data_m (objs s1 rhs))) s1;
          s3 = set_buffer rhs 0 s2;
          s4 = set_capacity rhs 0 s3
      in s4)"

text \<open>\<open>operator=(Vector&& rhs)\<close>.\<close>

definition Vector_move_assign :: "nat \<Rightarrow> nat \<Rightarrow> 'a state \<Rightarrow> 'a state" where
  "Vector_move_assign this rhs s =
     (let s1 = set_size this (Size s rhs) s;
          s2 = RawMemory_move_assign this rhs s1;
          s3 = set_size rhs 0 s2
      in s3)"

text \<open>
  \<open>Vector(Vector&& other)\<close>: the members of the new object are default-initialised
  (\<open>RawMemory()\<close> and \<open>size_ = 0\<close>) before the body runs.
\<close>

definition Vector_move_new :: "nat \<Rightarrow> nat \<Rightarrow> 'a state \<Rightarrow> 'a state" where
  "Vector_move_new this other s =
     (let s0 = s\<lparr>objs := (objs s)(this := \<lparr>data_m = RawMemory_default, size_m = 0\<rparr>)\<rparr>;
          s1 = set_size this (Size s0 other) s0;
          s2 = RawMemory_move_assign this other s1;
          s3 = set_size other 0 s2
      in s3)"


subsection \<open>Well-formed states and the contents of a vector\<close>

text \<open>The number of slots in the blocks at the addresses below \<open>n\<close>.\<close>

fun block_slots :: "'a slot list option \<Rightarrow> nat" where
  "block_slots None = 0"
| "block_slots (Some b) = length b"

fun allocated_below :: "(addr \<Rightarrow> 'a slot list option) \<Rightarrow> nat \<Rightarrow> nat" where
  "allocated_below h 0 = 0"
| "allocated_below h (Suc n) = allocated_below h n + block_slots (h n)"

definition allocated :: "'a state \<Rightarrow> nat" where
  "allocated s = allocated_below (heap s) (next_addr s)"

text \<open>
  The heap of a well-formed state maps \<open>nullptr\<close> to the empty block, which has
  no slot, and nothing is allocated at or beyond \<open>next_addr\<close>. The memory of the
  allocator, in use and available, and one more slot come to at most \<open>2^63\<close>
  bytes, the largest size of an object.
\<close>

definition mem_ok :: "'a state \<Rightarrow> bool" where
  "mem_ok s =
     (heap s 0 = Some [] \<and> 0 < next_addr s \<and> (\<forall>a. next_addr s \<le> a \<longrightarrow> heap s a = None) \<and>
      0 < slot_bytes s \<and> (avail s + allocated s + 1) * slot_bytes s \<le> 2 ^ 63)"

fun the_values :: "'a slot list \<Rightarrow> 'a list" where
  "the_values [] = []"
| "the_values (Raw # r) = the_values r"
| "the_values (Live v # r) = v # the_values r"

text \<open>The values of the elements at the indices \<open>[0, size)\<close>.\<close>

definition elems :: "'a state \<Rightarrow> nat \<Rightarrow> 'a list" where
  "elems s this =
     (case heap s (buffer_m (data_m (objs s this))) of
        None \<Rightarrow> []
      | Some b \<Rightarrow> the_values (take (size_m (objs s this)) b))"

text \<open>
  The invariant of the class: \<open>size \<le> capacity\<close>, the block has \<open>capacity\<close>
  slots, the first \<open>size\<close> of them hold live elements and the others are raw.
\<close>

definition vec_ok :: "'a state \<Rightarrow> nat \<Rightarrow> bool" where
  "vec_ok s this =
     (size_m (objs s this) \<le> capacity_m (data_m (objs s this)) \<and>
      length (elems s this) = size_m (objs s this) \<and>
      heap s (buffer_m (data_m (objs s this))) =
        Some (map Live (elems s this) @
              replicate (capacity_m (data_m (objs s this)) - size_m (objs s this)) Raw))"

text \<open>Pushing a list of values, one \<open>PushBack\<close> after the other.\<close>

fun push_all :: "'a elem_type \<Rightarrow> nat \<Rightarrow> 'a list \<Rightarrow> 'a state \<Rightarrow> (unit, 'a state) result" where
  "push_all T this [] s = Ok () s"
| "push_all T this (v # vs) s =
     (case PushBack T this v s of
        Ok u s' \<Rightarrow> push_all T this vs s'
      | Raise e s' \<Rightarrow> Raise e s'
      | Undefined \<Rightarrow> Undefined)"

text \<open>
  The growth rule in the words of the specification: the capacity of an
  initially empty vector after \<open>n\<close> pushes. A push onto a full vector of size
  \<open>n\<close> makes the capacity \<open>max(1, 2 * n)\<close>, any other push leaves it.
\<close>

fun capacity_after_pushes :: "nat \<Rightarrow> nat" where
  "capacity_after_pushes 0 = 0"
| "capacity_after_pushes (Suc n) =
     (if capacity_after_pushes n < Suc n then max 1 (2 * n) else capacity_after_pushes n)"

text \<open>The values constructed and the values destroyed by a sequence of events.\<close>

fun constructed :: "'a event list \<Rightarrow> 'a list" where
  "constructed [] = []"
| "constructed (Ctor v # r) = v # constructed r"
| "constructed (CopyCtor v # r) = v # constructed r"
| "constructed (MoveCtor v # r) = v # constructed r"
| "constructed (ev # r) = constructed r"

fun destroyed :: "'a event list \<Rightarrow> 'a list" where
  "destroyed [] = []"
| "destroyed (Dtor v # r) = v # destroyed r"
| "destroyed (ev # r) = destroyed r"

text \<open>
  The condition of the \<open>if constexpr\<close> in \<open>Reserve\<close> and \<open>MoveOrCopy\<close>, the event
  by which one element is then transferred, and the value the transfer leaves in
  the old slot.
\<close>

definition uses_move :: "'a elem_type \<Rightarrow> bool" where
  "uses_move T = (nothrow_move_constructible T \<or> \<not> copy_constructible T)"

definition transfer_event :: "'a elem_type \<Rightarrow> 'a \<Rightarrow> 'a event" where
  "transfer_event T v = (if uses_move T then MoveCtor v else CopyCtor v)"

definition left_behind :: "'a elem_type \<Rightarrow> 'a \<Rightarrow> 'a" where
  "left_behind T v = (if uses_move T then moved_from T v else v)"

text \<open>Some operation of the element type throws in some situation.\<close>

definition can_raise :: "'a elem_type \<Rightarrow> bool" where
  "can_raise T = (\<exists>h ev. raises T h ev)"

subsection \<open>Example element types and states\<close>

text \<open>
  \<open>int\<close>: copies and moves never throw, and a moved-from \<open>int\<close> keeps its value.
  \<open>example_fragile\<close>: a copyable type whose move constructor may throw and whose
  copy constructor throws on its third invocation.
\<close>

definition example_int :: "int elem_type" where
  "example_int =
     \<lparr>nothrow_move_constructible = True, copy_constructible = True,
      throws = (\<lambda>h ev. False), moved_from = (\<lambda>v. v)\<rparr>"

fun is_copy :: "'a event \<Rightarrow> bool" where
  "is_copy (CopyCtor v) = True"
| "is_copy ev = False"

definition example_fragile :: "int elem_type" where
  "example_fragile =
     \<lparr>nothrow_move_constructible = False, copy_constructible = True,
      throws = (\<lambda>h ev. is_copy ev \<and> length (filter is_copy h) = 2),
      moved_from = (\<lambda>v. 0)\<rparr>"


definition default_vector :: Vector where
  "default_vector = \<lparr>data_m = RawMemory_default, size_m = 0\<rparr>"

text \<open>No block allocated, every \<open>Vector\<close> default-constructed.\<close>

definition example_empty :: "int state" where
  "example_empty =
     \<lparr>objs = (\<lambda>r. default_vector), heap = (\<lambda>a. None)(0 := Some []),
      next_addr = 1, avail = 64, slot_bytes = 4, log = []\<rparr>"

text \<open>
  Vector \<open>0\<close> holds \<open>[10, 20, 30]\<close> in a full block of three slots, vector \<open>2\<close>
  holds \<open>[7, 8, 9, 5, 6]\<close> in a block of eight.
\<close>

definition example_two :: "int state" where
  "example_two =
     \<lparr>objs = (\<lambda>r. default_vector)
        (0 := \<lparr>data_m = \<lparr>buffer_m = 2, capacity_m = 3\<rparr>, size_m = 3\<rparr>,
         2 := \<lparr>data_m = \<lparr>buffer_m = 3, capacity_m = 8\<rparr>, size_m = 5\<rparr>),
      heap = (\<lambda>a. None)
        (0 := Some [],
         2 := Some [Live 10, Live 20, Live 30],
         3 := Some [Live 7, Live 8, Live 9, Live 5, Live 6, Raw, Raw, Raw]),
      next_addr = 4, avail = 53, slot_bytes = 4, log = []\<rparr>"

text \<open>The same, with vector \<open>2\<close> holding \<open>[7, 8]\<close> only.\<close>

definition example_short :: "int state" where
  "example_short =
     \<lparr>objs = (\<lambda>r. default_vector)
        (0 := \<lparr>data_m = \<lparr>buffer_m = 2, capacity_m = 3\<rparr>, size_m = 3\<rparr>,
         2 := \<lparr>data_m = \<lparr>buffer_m = 3, capacity_m = 8\<rparr>, size_m = 2\<rparr>),
      heap = (\<lambda>a. None)
        (0 := Some [],
         2 := Some [Live 10, Live 20, Live 30],
         3 := Some [Live 7, Live 8, Raw, Raw, Raw, Raw, Raw, Raw]),
      next_addr = 4, avail = 53, slot_bytes = 4, log = []\<rparr>"

subsection \<open>Outcomes as postconditions\<close>

text \<open>
  \<open>post r P Q\<close>: the outcome \<open>r\<close> is defined; if it is a normal return, \<open>P\<close> holds
  of the value and the state, and if it is an exception, \<open>Q\<close> holds of the
  exception and the state. \<open>frame s s'\<close>: only the heap and the log differ.
\<close>

definition post :: "('r, 's) result \<Rightarrow> ('r \<Rightarrow> 's \<Rightarrow> bool) \<Rightarrow> (exn \<Rightarrow> 's \<Rightarrow> bool) \<Rightarrow> bool" where
  "post r P Q = (case r of Ok x s \<Rightarrow> P x s | Raise e s \<Rightarrow> Q e s | Undefined \<Rightarrow> False)"

definition frame :: "'a state \<Rightarrow> 'a state \<Rightarrow> bool" where
  "frame s s' =
     (objs s' = objs s \<and> next_addr s' = next_addr s \<and> avail s' = avail s \<and>
      slot_bytes s' = slot_bytes s)"

section \<open>Lemmas\<close>

declare fun_upd_apply [simp del]

declare fun_upd_same [simp] fun_upd_other [simp]

subsection \<open>Postconditions\<close>

lemma can_raiseI: "raises T h ev \<Longrightarrow> can_raise T"
  by (auto simp: can_raise_def)

lemma frame_refl [simp]: "frame s s"
  by (simp add: frame_def)

lemma frame_trans: "frame s s1 \<Longrightarrow> frame s1 s2 \<Longrightarrow> frame s s2"
  by (simp add: frame_def)

lemma post_Ok [simp]: "post (Ok x s) P Q = P x s"
  by (simp add: post_def)

lemma post_Raise [simp]: "post (Raise e s) P Q = Q e s"
  by (simp add: post_def)

lemma post_Undefined [simp]: "post Undefined P Q = False"
  by (simp add: post_def)

lemma post_and_then:
  "post r (\<lambda>x s. post (f x s) P Q) Q \<Longrightarrow> post (and_then r f) P Q"
  by (cases r) (simp_all add: and_then_def)

lemma post_on_throw:
  "post r P (\<lambda>e s. post (c s) (\<lambda>u s'. Q e s') (\<lambda>e' s'. False)) \<Longrightarrow> post (on_throw r c) P Q"
  by (cases r) (auto simp: on_throw_def post_def split: result.splits)

lemma post_weaken:
  "post r P Q \<Longrightarrow> (\<And>x s. P x s \<Longrightarrow> P' x s) \<Longrightarrow> (\<And>e s. Q e s \<Longrightarrow> Q' e s) \<Longrightarrow> post r P' Q'"
  by (cases r) simp_all

lemma post_total: "post r P (\<lambda>e s. False) \<Longrightarrow> \<exists>x s. r = Ok x s \<and> P x s"
  by (cases r) simp_all

subsection \<open>One slot\<close>

lemma slot_at_mid:
  "heap s a = Some (pre @ x # rest) \<Longrightarrow> i = length pre \<Longrightarrow> slot_at s (a, i) = Some x"
  by (simp add: slot_at_def)

lemma heap_put_slot:
  "heap s a = Some (pre @ x # rest) \<Longrightarrow> i = length pre \<Longrightarrow>
   heap (put_slot (a, i) y s) = (heap s)(a := Some (pre @ y # rest))"
  by (simp add: put_slot_def)

lemma other_put_slot [simp]:
  "log (put_slot p y s) = log s" "objs (put_slot p y s) = objs s"
  "next_addr (put_slot p y s) = next_addr s" "avail (put_slot p y s) = avail s"
  "slot_bytes (put_slot p y s) = slot_bytes s"
  by (simp_all add: put_slot_def split: option.splits)

lemma fields_record_event [simp]:
  "log (record_event ev s) = log s @ [ev]" "objs (record_event ev s) = objs s"
  "next_addr (record_event ev s) = next_addr s" "avail (record_event ev s) = avail s"
  "heap (record_event ev s) = heap s" "slot_bytes (record_event ev s) = slot_bytes s"
  by (simp_all add: record_event_def)

lemma destroy_at_mid:
  "heap s a = Some (pre @ Live v # rest) \<Longrightarrow> i = length pre \<Longrightarrow>
   post (destroy_at (a, i) s)
     (\<lambda>u s'. heap s' = (heap s)(a := Some (pre @ Raw # rest)) \<and> log s' = log s @ [Dtor v]
        \<and> frame s s')
     (\<lambda>e s'. False)"
  by (simp add: destroy_at_def slot_at_mid heap_put_slot frame_def)

lemma construct_at_mid:
  "heap s a = Some (pre @ x # rest) \<Longrightarrow> i = length pre \<Longrightarrow>
   post (construct_at T (a, i) c s)
     (\<lambda>u s'. \<not> raises T (log s) (init_event c)
        \<and> heap s' = (heap s)(a := Some (pre @ Live (init_value c) # rest))
        \<and> log s' = log s @ [init_event c] \<and> frame s s')
     (\<lambda>e s'. e = ElemThrow \<and> s' = s \<and> raises T (log s) (init_event c))"
  by (simp add: construct_at_def slot_at_mid heap_put_slot frame_def)

lemma assign_at_mid:
  "heap s a = Some (pre @ Live old # rest) \<Longrightarrow> i = length pre \<Longrightarrow>
   post (assign_at T (a, i) c s)
     (\<lambda>u s'. heap s' = (heap s)(a := Some (pre @ Live (init_value c) # rest))
        \<and> log s' = log s @ [assign_event c] \<and> frame s s')
     (\<lambda>e s'. e = ElemThrow \<and> s' = s \<and> can_raise T)"
  by (auto simp: assign_at_def slot_at_mid heap_put_slot frame_def intro: can_raiseI)

lemma copy_construct_mid:
  "heap s a = Some (spre @ Live v # srest) \<Longrightarrow> i = length spre \<Longrightarrow>
   heap s b = Some (dpre @ x # drest) \<Longrightarrow> j = length dpre \<Longrightarrow>
   post (copy_construct T (a, i) (b, j) s)
     (\<lambda>u s'. \<not> raises T (log s) (CopyCtor v)
        \<and> heap s' = (heap s)(b := Some (dpre @ Live v # drest))
        \<and> log s' = log s @ [CopyCtor v] \<and> frame s s')
     (\<lambda>e s'. e = ElemThrow \<and> s' = s \<and> raises T (log s) (CopyCtor v))"
  using construct_at_mid [of s b dpre x drest j T "CopyOf v"]
  by (simp add: copy_construct_def slot_at_mid)

subsection \<open>Two slots, and \<open>destroy_n\<close>\<close>

lemma move_construct_mid:
  assumes ab: "a \<noteq> b" and ha: "heap s a = Some (spre @ Live v # srest)" and i: "i = length spre"
    and hb: "heap s b = Some (dpre @ x # drest)" and j: "j = length dpre"
  shows "post (move_construct T (a, i) (b, j) s)
     (\<lambda>u s'. heap s' = (heap s)(b := Some (dpre @ Live v # drest),
                                 a := Some (spre @ Live (moved_from T v) # srest))
        \<and> log s' = log s @ [MoveCtor v] \<and> frame s s')
     (\<lambda>e s'. e = ElemThrow \<and> s' = s \<and> \<not> nothrow_move_constructible T \<and> can_raise T)"
proof -
  have c: "post (construct_at T (b, j) (MoveOf v) s)
     (\<lambda>u s'. \<not> raises T (log s) (init_event (MoveOf v))
        \<and> heap s' = (heap s)(b := Some (dpre @ Live (init_value (MoveOf v)) # drest))
        \<and> log s' = log s @ [init_event (MoveOf v)] \<and> frame s s')
     (\<lambda>e s'. e = ElemThrow \<and> s' = s \<and> raises T (log s) (init_event (MoveOf v)))"
    by (rule construct_at_mid [OF hb j])
  show ?thesis
    unfolding move_construct_def
    apply (simp add: slot_at_mid [OF ha i])
    apply (rule post_and_then)
    apply (rule post_weaken [OF c])
     apply (simp add: heap_put_slot [where pre = spre and x = "Live v" and rest = srest] ha ab i frame_def)
    apply (auto simp: raises_def intro: can_raiseI [of T _ "MoveCtor v"])
    done
qed

lemma move_construct_next:
  assumes ha: "heap s a = Some (pre @ Live v # x # rest)" and i: "i = length pre"
  shows "post (move_construct T (a, i) (a, Suc i) s)
     (\<lambda>u s'. heap s' = (heap s)(a := Some (pre @ Live (moved_from T v) # Live v # rest))
        \<and> log s' = log s @ [MoveCtor v] \<and> frame s s')
     (\<lambda>e s'. e = ElemThrow \<and> s' = s \<and> can_raise T)"
proof -
  have hb: "heap s a = Some ((pre @ [Live v]) @ x # rest)" using ha by simp
  have c: "post (construct_at T (a, Suc i) (MoveOf v) s)
     (\<lambda>u s'. \<not> raises T (log s) (init_event (MoveOf v))
        \<and> heap s' = (heap s)(a := Some ((pre @ [Live v]) @ Live (init_value (MoveOf v)) # rest))
        \<and> log s' = log s @ [init_event (MoveOf v)] \<and> frame s s')
     (\<lambda>e s'. e = ElemThrow \<and> s' = s \<and> raises T (log s) (init_event (MoveOf v)))"
    by (rule construct_at_mid [OF hb]) (simp add: i)
  show ?thesis
    unfolding move_construct_def
    apply (simp add: slot_at_mid [OF ha i])
    apply (rule post_and_then)
    apply (rule post_weaken [OF c])
     apply (simp add: heap_put_slot [where pre = pre and x = "Live v" and rest = "Live v # rest"] i frame_def)
    apply (auto intro: can_raiseI)
    done
qed

lemma copy_assign_mid:
  assumes ha: "heap s a = Some (spre @ Live v # srest)" and i: "i = length spre"
    and hb: "heap s b = Some (dpre @ Live old # drest)" and j: "j = length dpre"
  shows "post (copy_assign T (a, i) (b, j) s)
     (\<lambda>u s'. heap s' = (heap s)(b := Some (dpre @ Live v # drest))
        \<and> log s' = log s @ [CopyAssign v] \<and> frame s s')
     (\<lambda>e s'. e = ElemThrow \<and> s' = s \<and> can_raise T)"
  using assign_at_mid [OF hb j, of T "CopyOf v"]
  by (simp add: copy_assign_def slot_at_mid [OF ha i])

lemma move_assign_prev:
  assumes ha: "heap s a = Some (pre @ Live old # Live v # rest)" and i: "i = length pre"
  shows "post (move_assign T (a, Suc i) (a, i) s)
     (\<lambda>u s'. heap s' = (heap s)(a := Some (pre @ Live v # Live (moved_from T v) # rest))
        \<and> log s' = log s @ [MoveAssign v] \<and> frame s s')
     (\<lambda>e s'. e = ElemThrow \<and> s' = s \<and> can_raise T)"
proof -
  have hs: "heap s a = Some ((pre @ [Live old]) @ Live v # rest)" using ha by simp
  have si: "Suc i = length (pre @ [Live old])" using i by simp
  show ?thesis
    unfolding move_assign_def
    apply (simp add: slot_at_mid [OF hs si])
    apply (rule post_and_then)
    apply (rule post_weaken [OF assign_at_mid [OF ha i, of T "MoveOf v"]])
     apply (simp add: heap_put_slot [where pre = "pre @ [Live v]" and x = "Live v" and rest = rest] i frame_def)
    apply simp
    done
qed

lemma move_assign_next:
  assumes ha: "heap s a = Some (pre @ Live v # Live old # rest)" and i: "i = length pre"
  shows "post (move_assign T (a, i) (a, Suc i) s)
     (\<lambda>u s'. heap s' = (heap s)(a := Some (pre @ Live (moved_from T v) # Live v # rest))
        \<and> log s' = log s @ [MoveAssign v] \<and> frame s s')
     (\<lambda>e s'. e = ElemThrow \<and> s' = s \<and> can_raise T)"
proof -
  have hs: "heap s a = Some ((pre @ [Live v]) @ Live old # rest)" using ha by simp
  have si: "Suc i = length (pre @ [Live v])" using i by simp
  show ?thesis
    unfolding move_assign_def
    apply (simp add: slot_at_mid [OF ha i])
    apply (rule post_and_then)
    apply (rule post_weaken [OF assign_at_mid [OF hs si, of T "MoveOf v"]])
     apply (simp add: heap_put_slot [where pre = pre and x = "Live v" and rest = "Live v # rest"] i frame_def)
    apply simp
    done
qed

lemma destroy_n_block:
  "heap s a = Some (pre @ map Live vs @ rest) \<Longrightarrow>
   post (destroy_n (a, length pre) (length vs) s)
     (\<lambda>u s'. heap s' = (heap s)(a := Some (pre @ replicate (length vs) Raw @ rest))
        \<and> log s' = log s @ map Dtor vs \<and> frame s s')
     (\<lambda>e s'. False)"
proof (induction vs arbitrary: pre s)
  case Nil
  then show ?case by (simp add: fun_upd_idem)
next
  case (Cons v vs)
  from Cons.prems have "heap s a = Some (pre @ Live v # map Live vs @ rest)" by simp
  from destroy_at_mid [OF this refl] obtain s1 where
    d: "destroy_at (a, length pre) s = Ok () s1"
    and h1: "heap s1 = (heap s)(a := Some (pre @ Raw # map Live vs @ rest))"
    and l1: "log s1 = log s @ [Dtor v]" and f1: "frame s s1"
    by (auto dest!: post_total)
  have "heap s1 a = Some ((pre @ [Raw]) @ map Live vs @ rest)" by (simp add: h1)
  from Cons.IH [OF this]
  have ih: "post (destroy_n (a, Suc (length pre)) (length vs) s1)
     (\<lambda>u s'. heap s' = (heap s1)(a := Some ((pre @ [Raw]) @ replicate (length vs) Raw @ rest))
        \<and> log s' = log s1 @ map Dtor vs \<and> frame s1 s')
     (\<lambda>e s'. False)" by simp
  have "post (destroy_n (a, Suc (length pre)) (length vs) s1)
     (\<lambda>u s'. heap s' = (heap s)(a := Some (pre @ replicate (length (v # vs)) Raw @ rest))
        \<and> log s' = log s @ map Dtor (v # vs) \<and> frame s s')
     (\<lambda>e s'. False)"
    by (rule post_weaken [OF ih]) (auto simp: h1 l1 intro: frame_trans [OF f1])
  then show ?case
    by (simp add: d ptr_add_def)
qed

lemma destroy_n_run:
  "heap s a = Some (pre @ map Live vs @ rest) \<Longrightarrow> i = length pre \<Longrightarrow> n = length vs \<Longrightarrow>
   \<exists>s'. destroy_n (a, i) n s = Ok () s'
     \<and> heap s' = (heap s)(a := Some (pre @ replicate (length vs) Raw @ rest))
     \<and> log s' = log s @ map Dtor vs \<and> frame s s'"
  using destroy_n_block [of s a pre vs rest] by (auto dest!: post_total)

subsection \<open>The loops of the standard algorithms\<close>

lemma replicate_append2: "replicate m x @ replicate n x @ r = replicate (m + n) x @ r"
  by (simp add: replicate_add)

lemma uninit_copy_loop_block:
  assumes ab: "a \<noteq> b"
  shows "heap s a = Some (spre @ map Live dn @ map Live todo @ srest) \<Longrightarrow>
     heap s b = Some (dpre @ map Live dn @ replicate (length todo) Raw @ drest) \<Longrightarrow>
     post (uninit_copy_loop T (a, length spre) (b, length dpre) (length dn) (length todo) s)
       (\<lambda>u s'. heap s' = (heap s)(b := Some (dpre @ map Live (dn @ todo) @ drest))
          \<and> log s' = log s @ map CopyCtor todo \<and> frame s s'
          \<and> (\<forall>k<length todo. \<not> raises T (log s @ map CopyCtor (take k todo)) (CopyCtor (todo ! k))))
       (\<lambda>e s'. e = ElemThrow \<and>
          (\<exists>k<length todo. raises T (log s @ map CopyCtor (take k todo)) (CopyCtor (todo ! k))
             \<and> heap s' = (heap s)(b := Some (dpre @ replicate (length dn + length todo) Raw @ drest))
             \<and> log s' = log s @ map CopyCtor (take k todo) @ map Dtor (dn @ take k todo)
             \<and> frame s s'))"
proof (induction todo arbitrary: dn s)
  case Nil
  then show ?case by (simp add: fun_upd_idem)
next
  case (Cons t todo)
  have ha: "heap s a = Some ((spre @ map Live dn) @ Live t # (map Live todo @ srest))"
    using Cons.prems(1) by simp
  have hb: "heap s b = Some ((dpre @ map Live dn) @ Raw # (replicate (length todo) Raw @ drest))"
    using Cons.prems(2) by simp
  have cc: "post (copy_construct T (a, length spre + length dn) (b, length dpre + length dn) s)
     (\<lambda>u s'. \<not> raises T (log s) (CopyCtor t)
        \<and> heap s' = (heap s)(b := Some ((dpre @ map Live dn) @ Live t # (replicate (length todo) Raw @ drest)))
        \<and> log s' = log s @ [CopyCtor t] \<and> frame s s')
     (\<lambda>e s'. e = ElemThrow \<and> s' = s \<and> raises T (log s) (CopyCtor t))"
    by (rule copy_construct_mid [OF ha _ hb]) simp_all
  show ?case
  proof (cases "copy_construct T (a, length spre + length dn) (b, length dpre + length dn) s")
    case (Ok u s1)
    with cc have h1: "heap s1 = (heap s)(b := Some ((dpre @ map Live dn) @ Live t # (replicate (length todo) Raw @ drest)))"
      and l1: "log s1 = log s @ [CopyCtor t]" and f1: "frame s s1"
      and nr: "\<not> raises T (log s) (CopyCtor t)"
      by simp_all
    have a1: "heap s1 a = Some (spre @ map Live (dn @ [t]) @ map Live todo @ srest)"
      using ab Cons.prems(1) by (simp add: h1)
    have b1: "heap s1 b = Some (dpre @ map Live (dn @ [t]) @ replicate (length todo) Raw @ drest)"
      by (simp add: h1)
    have "post (uninit_copy_loop T (a, length spre) (b, length dpre) (Suc (length dn)) (length todo) s1)
       (\<lambda>u s'. heap s' = (heap s)(b := Some (dpre @ map Live (dn @ t # todo) @ drest))
          \<and> log s' = log s @ map CopyCtor (t # todo) \<and> frame s s'
          \<and> (\<forall>k<length (t # todo).
                \<not> raises T (log s @ map CopyCtor (take k (t # todo))) (CopyCtor ((t # todo) ! k))))
       (\<lambda>e s'. e = ElemThrow \<and>
          (\<exists>k<length (t # todo). raises T (log s @ map CopyCtor (take k (t # todo))) (CopyCtor ((t # todo) ! k))
             \<and> heap s' = (heap s)(b := Some (dpre @ replicate (length dn + length (t # todo)) Raw @ drest))
             \<and> log s' = log s @ map CopyCtor (take k (t # todo)) @ map Dtor (dn @ take k (t # todo))
             \<and> frame s s'))"
    proof (rule post_weaken [OF Cons.IH [OF a1 b1, simplified]], goal_cases)
      case (1 x s')
      then show ?case
        using nr by (auto simp: h1 l1 frame_trans [OF f1] less_Suc_eq_0_disj)
    next
      case (2 e s')
      then obtain k where "k < length todo"
        "raises T (log s1 @ map CopyCtor (take k todo)) (CopyCtor (todo ! k))"
        "heap s' = (heap s1)(b := Some (dpre @ replicate (Suc (length dn + length todo)) Raw @ drest))"
        "log s' = log s1 @ map CopyCtor (take k todo) @ map Dtor dn @ Dtor t # map Dtor (take k todo)"
        "frame s1 s'" "e = ElemThrow"
        by auto
      then show ?case
        by (intro conjI exI [of _ "Suc k"]) (simp_all add: h1 l1 frame_trans [OF f1])
    qed
    then show ?thesis
      by (simp add: Ok ptr_add_def)
  next
    case (Raise e s1)
    with cc have e: "e = ElemThrow" and s1: "s1 = s" and r: "raises T (log s) (CopyCtor t)"
      by simp_all
    have "heap s b = Some (dpre @ map Live dn @ (replicate (length (t # todo)) Raw @ drest))"
      using Cons.prems(2) by simp
    from destroy_n_run [OF this refl refl] obtain s2 where
      d: "destroy_n (b, length dpre) (length dn) s = Ok () s2"
      and h2: "heap s2 = (heap s)(b := Some (dpre @ replicate (length dn) Raw @ replicate (length (t # todo)) Raw @ drest))"
      and l2: "log s2 = log s @ map Dtor dn" and f2: "frame s s2"
      by auto
    show ?thesis
      apply (simp add: Raise ptr_add_def s1 d e)
      apply (rule exI [of _ 0])
      apply (simp add: r h2 l2 f2 replicate_append2 del: replicate_Suc)
      apply simp
      done
  next
    case Undefined
    with cc show ?thesis by simp
  qed
qed

lemma copy_loop_block:
  assumes ab: "a \<noteq> b"
  shows "heap s a = Some (spre @ map Live vs @ srest) \<Longrightarrow>
     heap s b = Some (dpre @ map Live olds @ drest) \<Longrightarrow> length olds = length vs \<Longrightarrow>
     post (copy_loop T (a, length spre) (b, length dpre) (length vs) s)
       (\<lambda>u s'. heap s' = (heap s)(b := Some (dpre @ map Live vs @ drest))
          \<and> log s' = log s @ map CopyAssign vs \<and> frame s s')
       (\<lambda>e s'. e = ElemThrow \<and> can_raise T)"
proof (induction vs arbitrary: spre dpre olds s)
  case Nil
  then show ?case by (simp add: fun_upd_idem)
next
  case (Cons v vs)
  from Cons.prems(3) obtain old olds' where olds: "olds = old # olds'" and len: "length olds' = length vs"
    by (cases olds) auto
  have ha: "heap s a = Some (spre @ Live v # (map Live vs @ srest))"
    using Cons.prems(1) by simp
  have hb: "heap s b = Some (dpre @ Live old # (map Live olds' @ drest))"
    using Cons.prems(2) olds by simp
  note cc = copy_assign_mid [OF ha refl hb refl, of T]
  show ?case
  proof (cases "copy_assign T (a, length spre) (b, length dpre) s")
    case (Ok u s1)
    with cc have h1: "heap s1 = (heap s)(b := Some (dpre @ Live v # (map Live olds' @ drest)))"
      and l1: "log s1 = log s @ [CopyAssign v]" and f1: "frame s s1"
      by simp_all
    have a1: "heap s1 a = Some ((spre @ [Live v]) @ map Live vs @ srest)"
      using ab Cons.prems(1) by (simp add: h1)
    have b1: "heap s1 b = Some ((dpre @ [Live v]) @ map Live olds' @ drest)"
      by (simp add: h1)
    have "post (copy_loop T (a, Suc (length spre)) (b, Suc (length dpre)) (length vs) s1)
       (\<lambda>u s'. heap s' = (heap s)(b := Some (dpre @ map Live (v # vs) @ drest))
          \<and> log s' = log s @ map CopyAssign (v # vs) \<and> frame s s')
       (\<lambda>e s'. e = ElemThrow \<and> can_raise T)"
    proof (rule post_weaken [OF Cons.IH [OF a1 b1 len, simplified]], goal_cases)
      case (1 x s')
      then show ?case by (simp add: h1 l1 frame_trans [OF f1])
    next
      case (2 e s')
      then show ?case by simp
    qed
    then show ?thesis
      by (simp add: Ok ptr_add_def)
  next
    case (Raise e s1)
    with cc show ?thesis by simp
  next
    case Undefined
    with cc show ?thesis by simp
  qed
qed

lemma move_loop_block:
  "heap s a = Some (pre @ Live y # map Live vs @ rest) \<Longrightarrow>
     post (move_loop T (a, Suc (length pre)) (a, length pre) (length vs) s)
       (\<lambda>u s'. heap s' = (heap s)(a := Some (pre @ map Live vs @
                                     Live (last (y # map (moved_from T) vs)) # rest))
          \<and> log s' = log s @ map MoveAssign vs \<and> frame s s')
       (\<lambda>e s'. e = ElemThrow \<and> can_raise T)"
proof (induction vs arbitrary: pre y s)
  case Nil
  then show ?case by (simp add: fun_upd_idem)
next
  case (Cons v vs)
  have ha: "heap s a = Some (pre @ Live y # Live v # (map Live vs @ rest))"
    using Cons.prems(1) by simp
  note cc = move_assign_prev [OF ha refl, of T]
  show ?case
  proof (cases "move_assign T (a, Suc (length pre)) (a, length pre) s")
    case (Ok u s1)
    with cc have h1: "heap s1 = (heap s)(a := Some (pre @ Live v # Live (moved_from T v) # (map Live vs @ rest)))"
      and l1: "log s1 = log s @ [MoveAssign v]" and f1: "frame s s1"
      by simp_all
    have a1: "heap s1 a = Some ((pre @ [Live v]) @ Live (moved_from T v) # map Live vs @ rest)"
      by (simp add: h1)
    have "post (move_loop T (a, Suc (Suc (length pre))) (a, Suc (length pre)) (length vs) s1)
       (\<lambda>u s'. heap s' = (heap s)(a := Some (pre @ map Live (v # vs) @
                                     Live (last (y # map (moved_from T) (v # vs))) # rest))
          \<and> log s' = log s @ map MoveAssign (v # vs) \<and> frame s s')
       (\<lambda>e s'. e = ElemThrow \<and> can_raise T)"
    proof (rule post_weaken [OF Cons.IH [OF a1, simplified]], goal_cases)
      case (1 x s')
      then show ?case by (simp add: h1 l1 frame_trans [OF f1])
    next
      case (2 e s')
      then show ?case by simp
    qed
    then show ?thesis
      by (simp add: Ok ptr_add_def)
  next
    case (Raise e s1)
    with cc show ?thesis by simp
  next
    case Undefined
    with cc show ?thesis by simp
  qed
qed

lemma move_backward_loop_block:
  "heap s a = Some (pre @ map Live vs @ Live y # rest) \<Longrightarrow>
     post (move_backward_loop T (a, length pre) (a, Suc (length pre + length vs)) (length vs) s)
       (\<lambda>u s'. heap s' = (heap s)(a := Some (pre @ Live (hd (map (moved_from T) vs @ [y])) #
                                     map Live vs @ rest))
          \<and> log s' = log s @ map MoveAssign (rev vs) \<and> frame s s')
       (\<lambda>e s'. e = ElemThrow \<and> can_raise T)"
proof (induction vs arbitrary: y rest s rule: rev_induct)
  case Nil
  then show ?case by (simp add: fun_upd_idem)
next
  case (snoc v vs)
  have ha: "heap s a = Some ((pre @ map Live vs) @ Live v # Live y # rest)"
    using snoc.prems(1) by simp
  have cc: "post (move_assign T (a, length pre + length vs) (a, Suc (length pre + length vs)) s)
     (\<lambda>u s'. heap s' = (heap s)(a := Some ((pre @ map Live vs) @ Live (moved_from T v) # Live v # rest))
        \<and> log s' = log s @ [MoveAssign v] \<and> frame s s')
     (\<lambda>e s'. e = ElemThrow \<and> s' = s \<and> can_raise T)"
    by (rule move_assign_next [OF ha]) simp
  show ?case
  proof (cases "move_assign T (a, length pre + length vs) (a, Suc (length pre + length vs)) s")
    case (Ok u s1)
    with cc have h1: "heap s1 = (heap s)(a := Some ((pre @ map Live vs) @ Live (moved_from T v) # Live v # rest))"
      and l1: "log s1 = log s @ [MoveAssign v]" and f1: "frame s s1"
      by simp_all
    have a1: "heap s1 a = Some (pre @ map Live vs @ Live (moved_from T v) # (Live v # rest))"
      by (simp add: h1)
    have "post (move_backward_loop T (a, length pre) (a, Suc (length pre + length vs)) (length vs) s1)
       (\<lambda>u s'. heap s' = (heap s)(a := Some (pre @ Live (hd (map (moved_from T) (vs @ [v]) @ [y])) #
                                     map Live (vs @ [v]) @ rest))
          \<and> log s' = log s @ map MoveAssign (rev (vs @ [v])) \<and> frame s s')
       (\<lambda>e s'. e = ElemThrow \<and> can_raise T)"
    proof (rule post_weaken [OF snoc.IH [OF a1]], goal_cases)
      case (1 x s')
      then show ?case by (cases vs) (simp_all add: h1 l1 frame_trans [OF f1])
    next
      case (2 e s')
      then show ?case by simp
    qed
    then show ?thesis
      by (simp add: Ok ptr_add_def ptr_minus_def)
  next
    case (Raise e s1)
    with cc show ?thesis by (simp add: ptr_add_def ptr_minus_def)
  next
    case Undefined
    with cc show ?thesis by simp
  qed
qed

subsection \<open>The algorithms, the invariant, allocation\<close>

lemma uninitialized_copy_n_zero [simp]: "uninitialized_copy_n T p 0 q s = Ok () s"
  by (simp add: uninitialized_copy_n_def)

lemma uninitialized_move_n_zero [simp]: "uninitialized_move_n T p 0 q s = Ok () s"
  by (simp add: uninitialized_move_n_def)

lemma MoveOrCopy_zero [simp]: "MoveOrCopy T p 0 q s = Ok () s"
  by (simp add: MoveOrCopy_def)

lemma uninitialized_copy_n_spec:
  assumes "a \<noteq> b" "heap s a = Some (spre @ map Live vs @ srest)" "i = length spre"
    "heap s b = Some (dpre @ replicate n Raw @ drest)" "j = length dpre" "n = length vs"
  shows "post (uninitialized_copy_n T (a, i) n (b, j) s)
       (\<lambda>u s'. heap s' = (heap s)(b := Some (dpre @ map Live vs @ drest))
          \<and> log s' = log s @ map CopyCtor vs \<and> frame s s'
          \<and> (\<forall>k<length vs. \<not> raises T (log s @ map CopyCtor (take k vs)) (CopyCtor (vs ! k))))
       (\<lambda>e s'. e = ElemThrow \<and> can_raise T \<and> heap s' = heap s \<and> frame s s' \<and>
          (\<exists>k<length vs. raises T (log s @ map CopyCtor (take k vs)) (CopyCtor (vs ! k))
             \<and> log s' = log s @ map CopyCtor (take k vs) @ map Dtor (take k vs)))"
proof -
  have ha: "heap s a = Some (spre @ map Live [] @ map Live vs @ srest)"
    using assms by simp
  have hb: "heap s b = Some (dpre @ map Live [] @ replicate (length vs) Raw @ drest)"
    using assms by simp
  show ?thesis
    unfolding uninitialized_copy_n_def
    using uninit_copy_loop_block [OF assms(1) ha hb, of T] assms
    by (auto elim!: post_weaken simp: fun_upd_idem intro: can_raiseI)
qed

lemma left_behind_move: "uses_move T \<Longrightarrow> left_behind T = moved_from T"
  by (rule ext) (simp add: left_behind_def)

lemma left_behind_copy: "\<not> uses_move T \<Longrightarrow> left_behind T = (\<lambda>v. v)"
  by (rule ext) (simp add: left_behind_def)

lemma transfer_event_move: "uses_move T \<Longrightarrow> transfer_event T = MoveCtor"
  by (rule ext) (simp add: transfer_event_def)

lemma transfer_event_copy: "\<not> uses_move T \<Longrightarrow> transfer_event T = CopyCtor"
  by (rule ext) (simp add: transfer_event_def)

lemma the_values_Live [simp]: "the_values (map Live xs) = xs"
  by (induction xs) simp_all

lemma vec_okD:
  assumes "vec_ok s this"
  shows "heap s (buffer_m (data_m (objs s this))) =
           Some (map Live (elems s this) @ replicate (Capacity s this - Size s this) Raw)"
    and "length (elems s this) = Size s this"
    and "Size s this \<le> Capacity s this"
  using assms by (simp_all add: vec_ok_def Size_def Capacity_def)

lemma vec_okI:
  assumes "heap s (buffer_m (data_m (objs s this))) = Some (map Live xs @ replicate k Raw)"
    and "size_m (objs s this) = length xs"
    and "capacity_m (data_m (objs s this)) = length xs + k"
  shows "vec_ok s this" and "elems s this = xs"
proof -
  show e: "elems s this = xs"
    using assms by (simp add: elems_def)
  show "vec_ok s this"
    using assms by (simp add: vec_ok_def e)
qed

lemma RawMemory_new_spec:
  assumes "n \<noteq> 0" and "0 < slot_bytes s" and "n * slot_bytes s < 2 ^ 64"
  shows "post (RawMemory_new n s)
     (\<lambda>r s'. r = \<lparr>buffer_m = next_addr s, capacity_m = n\<rparr>
        \<and> heap s' = (heap s)(next_addr s := Some (replicate n Raw))
        \<and> next_addr s' = Suc (next_addr s) \<and> avail s' = avail s - n \<and> n \<le> avail s
        \<and> slot_bytes s' = slot_bytes s
        \<and> objs s' = objs s \<and> log s' = log s)
     (\<lambda>e s'. e = BadAlloc \<and> s' = s \<and> avail s < n)"
  using assms by (simp add: RawMemory_new_def Allocate_def and_then_def)

lemma RawMemory_delete_spec:
  assumes "heap s a = Some blk" "buffer_m r = a"
  shows "post (RawMemory_delete r s)
     (\<lambda>u s'. heap s' = (if a = 0 then heap s else (heap s)(a := None))
        \<and> avail s' = (if a = 0 then avail s else avail s + length blk)
        \<and> next_addr s' = next_addr s \<and> objs s' = objs s \<and> log s' = log s
        \<and> slot_bytes s' = slot_bytes s)
     (\<lambda>e s'. False)"
  using assms by (simp add: RawMemory_delete_def Deallocate_def)

subsection \<open>Field updates\<close>

lemma fields_set_size [simp]:
  "heap (set_size this n s) = heap s" "log (set_size this n s) = log s"
  "next_addr (set_size this n s) = next_addr s" "avail (set_size this n s) = avail s"
  "objs (set_size this n s) = (objs s)(this := (objs s this)\<lparr>size_m := n\<rparr>)"
  "slot_bytes (set_size this n s) = slot_bytes s"
  by (simp_all add: set_size_def)

lemma fields_set_data [simp]:
  "heap (set_data this d s) = heap s" "log (set_data this d s) = log s"
  "next_addr (set_data this d s) = next_addr s" "avail (set_data this d s) = avail s"
  "objs (set_data this d s) = (objs s)(this := (objs s this)\<lparr>data_m := d\<rparr>)"
  "slot_bytes (set_data this d s) = slot_bytes s"
  by (simp_all add: set_data_def)

text \<open>
  Claim C8. On a vector that holds at least one element, \<open>PopBack\<close> returns
  normally: it destroys the last element, decrements the size by one and leaves
  the elements before it, the capacity and the invariant as they were; the slot
  at the new \<open>end()\<close> is raw. The destruction is not guarded by the test
  \<open>size_ > 0\<close>: on a vector of size \<open>0\<close> the call is not a no-op but undefined,
  because \<open>end() - 1\<close> is no slot of the buffer, so there is no live element to
  destroy.
\<close>

theorem PopBack_destroys_last:
  "(vec_ok s this \<and> 0 < Size s this \<longrightarrow>
      (\<exists>s'. PopBack this s = Ok () s' \<and> Size s' this = Size s this - 1
         \<and> elems s' this = butlast (elems s this)
         \<and> log s' = log s @ [Dtor (last (elems s this))]
         \<and> slot_at s' (vend s' this) = Some Raw
         \<and> Capacity s' this = Capacity s this \<and> vec_ok s' this))
   \<and> (Size s this = 0 \<longrightarrow> ptr_minus (vend s this) 1 = None \<and> PopBack this s = Undefined)"
proof (rule conjI; rule impI)
  assume "Size s this = 0"
  then show "ptr_minus (vend s this) 1 = None \<and> PopBack this s = Undefined"
    by (simp add: PopBack_def ptr_minus_def vend_def Size_def and_then_def)
next
  assume a: "vec_ok s this \<and> 0 < Size s this"
  define xs where "xs = elems s this"
  define k where "k = Capacity s this - Size s this"
  define buf where "buf = buffer_m (data_m (objs s this))"
  have len: "length xs = Size s this" and cap: "Capacity s this = length xs + k"
    and h: "heap s buf = Some (map Live xs @ replicate k Raw)"
    using a vec_okD [of s this] by (simp_all add: xs_def k_def buf_def)
  have ne: "xs \<noteq> []" using a len by auto
  have "map Live xs = map Live (butlast xs @ [last xs])"
    using ne by simp
  then have h': "heap s buf = Some (map Live (butlast xs) @ map Live [last xs] @ replicate k Raw)"
    using h by simp
  from destroy_n_run [OF h', of "Size s this - 1" 1] obtain s1 where
    d: "destroy_n (buf, Size s this - 1) 1 s = Ok () s1"
    and h1: "heap s1 = (heap s)(buf := Some (map Live (butlast xs) @ replicate 1 Raw @ replicate k Raw))"
    and l1: "log s1 = log s @ map Dtor [last xs]" and f1: "frame s s1"
    using len by auto
  have o1: "objs s1 = objs s" using f1 by (simp add: frame_def)
  let ?s' = "set_size this (Size s this - 1) s1"
  have p: "PopBack this s = Ok () ?s'"
    using a d by (simp add: PopBack_def ptr_minus_def vend_def and_then_def Size_def o1 buf_def)
  have hb: "heap ?s' (buffer_m (data_m (objs ?s' this))) = Some (map Live (butlast xs) @ replicate (Suc k) Raw)"
    by (simp add: h1 o1 buf_def)
  have sz: "size_m (objs ?s' this) = length (butlast xs)"
    by (simp add: len)
  have cp: "capacity_m (data_m (objs ?s' this)) = length (butlast xs) + Suc k"
    using cap ne by (simp add: o1 Capacity_def)
  note ok = vec_okI [OF hb sz cp]
  have sl: "slot_at ?s' (vend ?s' this) = Some Raw"
    using slot_at_mid [of ?s' buf "map Live (butlast xs)" Raw "replicate k Raw" "Size s this - 1"] len
    by (simp add: vend_def h1 o1 buf_def)
  show "\<exists>s'. PopBack this s = Ok () s' \<and> Size s' this = Size s this - 1
         \<and> elems s' this = butlast (elems s this)
         \<and> log s' = log s @ [Dtor (last (elems s this))]
         \<and> slot_at s' (vend s' this) = Some Raw
         \<and> Capacity s' this = Capacity s this \<and> vec_ok s' this"
    using p ok sl l1 by (auto simp: Size_def Capacity_def o1 xs_def)
qed


subsection \<open>The example states\<close>

lemma example_allocated:
  "allocated example_two = 11" "allocated example_empty = 0" "allocated example_short = 11"
  by (simp_all add: allocated_def example_two_def example_empty_def example_short_def
      eval_nat_numeral)

lemma example_two_ok: "mem_ok example_two" "vec_ok example_two 0" "vec_ok example_two 2"
  "elems example_two 0 = [10, 20, 30]" "elems example_two 2 = [7, 8, 9, 5, 6]"
  by (simp_all add: mem_ok_def example_allocated)
    (simp_all add: vec_ok_def elems_def example_two_def default_vector_def numeral_3_eq_3)

lemma example_empty_ok: "mem_ok example_empty" "vec_ok example_empty this"
  "elems example_empty this = []"
  by (simp_all add: mem_ok_def example_allocated)
    (simp_all add: vec_ok_def elems_def example_empty_def default_vector_def
      RawMemory_default_def)

theorem PopBack_destroys_last_witness:
  "(vec_ok example_two 0 \<and> 0 < Size example_two 0 \<and>
      (\<exists>s'. PopBack 0 example_two = Ok () s' \<and> Size s' 0 = 2 \<and> elems s' 0 = [10, 20]
         \<and> log s' = [Dtor 30]))
   \<and> (Size example_empty 0 = 0 \<and> PopBack 0 example_empty = Undefined)"
proof -
  have h: "vec_ok example_two 0 \<and> 0 < Size example_two 0"
    by (simp add: example_two_ok) (simp add: Size_def example_two_def)
  have z: "Size example_empty 0 = 0"
    by (simp add: Size_def example_empty_def default_vector_def)
  have sz: "Size example_two 0 = 3" "log example_two = []"
    by (simp_all add: Size_def example_two_def)
  show ?thesis
    using PopBack_destroys_last [of example_two 0] PopBack_destroys_last [of example_empty 0] h z
    by (auto simp: example_two_ok sz)
qed

subsection \<open>Self-assignment, moves between vectors, \<open>Erase\<close>\<close>

text \<open>
  Claim C10. Copy-assigning a vector to itself returns normally and leaves the
  whole state as it was: the size, the capacity and the elements of the vector,
  every block of the heap, and the log, so no operation on an element was
  performed. The test \<open>this != &rhs\<close> is the comparison of the two references.
\<close>

theorem Vector_assign_self:
  "Vector_assign T this this s = Ok () s"
  by (simp add: Vector_assign_def)

theorem Vector_assign_self_witness:
  "Vector_assign example_fragile 0 0 example_two = Ok () example_two"
  by (rule Vector_assign_self)

lemma Vector_move_assign_fields:
  "heap (Vector_move_assign this rhs s) = heap s"
  "log (Vector_move_assign this rhs s) = log s"
  "next_addr (Vector_move_assign this rhs s) = next_addr s"
  "avail (Vector_move_assign this rhs s) = avail s"
  by (simp_all add: Vector_move_assign_def RawMemory_move_assign_def set_buffer_def
      set_capacity_def Let_def)

lemma Vector_move_new_fields:
  "heap (Vector_move_new this rhs s) = heap s"
  "log (Vector_move_new this rhs s) = log s"
  "next_addr (Vector_move_new this rhs s) = next_addr s"
  "avail (Vector_move_new this rhs s) = avail s"
  by (simp_all add: Vector_move_new_def RawMemory_move_assign_def set_buffer_def
      set_capacity_def Let_def)

lemma Vector_move_assign_objs:
  "this \<noteq> rhs \<Longrightarrow>
   objs (Vector_move_assign this rhs s) = (objs s)(this := objs s rhs, rhs := default_vector)"
  by (rule ext)
    (simp add: Vector_move_assign_def RawMemory_move_assign_def set_buffer_def
      set_capacity_def Let_def Size_def default_vector_def RawMemory_default_def fun_upd_apply)

lemma Vector_move_new_objs:
  "this \<noteq> rhs \<Longrightarrow>
   objs (Vector_move_new this rhs s) = (objs s)(this := objs s rhs, rhs := default_vector)"
  by (rule ext)
    (simp add: Vector_move_new_def RawMemory_move_assign_def set_buffer_def
      set_capacity_def Let_def Size_def default_vector_def RawMemory_default_def fun_upd_apply)

lemma Vector_move_assign_self_objs:
  "objs (Vector_move_assign this this s) = (objs s)(this := default_vector)"
  by (rule ext)
    (simp add: Vector_move_assign_def RawMemory_move_assign_def set_buffer_def
      set_capacity_def Let_def Size_def default_vector_def RawMemory_default_def fun_upd_apply)


lemma post_cases [consumes 1, case_names Ok Raise]:
  assumes "post r P Q"
    and "\<And>x s'. r = Ok x s' \<Longrightarrow> P x s' \<Longrightarrow> R"
    and "\<And>e s'. r = Raise e s' \<Longrightarrow> Q e s' \<Longrightarrow> R"
  shows R
  using assms by (cases r) simp_all

lemma Erase_spec:
  assumes ok: "vec_ok s this" and lt: "pos_n < Size s this"
    and pos: "pos = ptr_add (vbegin s this) pos_n"
  shows "post (Erase T this pos s)
     (\<lambda>p s'. p = pos
        \<and> objs s' = (objs s)(this := (objs s this)\<lparr>size_m := Size s this - 1\<rparr>)
        \<and> heap s' = (heap s)(buffer_m (data_m (objs s this)) :=
             Some (map Live (take pos_n (elems s this) @ drop (Suc pos_n) (elems s this)) @
                   replicate (Suc (Capacity s this - Size s this)) Raw))
        \<and> log s' = log s @ map MoveAssign (drop (Suc pos_n) (elems s this)) @
             [Dtor (last (elems s this ! pos_n #
                          map (moved_from T) (drop (Suc pos_n) (elems s this))))]
        \<and> next_addr s' = next_addr s \<and> avail s' = avail s)
     (\<lambda>e s'. e = ElemThrow \<and> can_raise T)"
proof -
  define xs where "xs = elems s this"
  define k where "k = Capacity s this - Size s this"
  define buf where "buf = buffer_m (data_m (objs s this))"
  define vs where "vs = drop (Suc pos_n) xs"
  define z where "z = last (xs ! pos_n # map (moved_from T) vs)"
  have len: "length xs = Size s this" and cap: "Capacity s this = length xs + k"
    and h: "heap s buf = Some (map Live xs @ replicate k Raw)"
    using ok vec_okD [of s this] by (simp_all add: xs_def k_def buf_def)
  have sz: "size_m (objs s this) = length xs" using len by (simp add: Size_def)
  have split: "xs = take pos_n xs @ xs ! pos_n # vs"
    using lt len by (simp add: vs_def id_take_nth_drop)
  have lvs: "length vs = length xs - Suc pos_n" by (simp add: vs_def)
  have lpre: "length (map Live (take pos_n xs)) = pos_n" using lt len by simp
  have "map Live xs = map Live (take pos_n xs @ xs ! pos_n # vs)"
    using split by simp
  then have h0: "heap s buf = Some (map Live (take pos_n xs) @ Live (xs ! pos_n) # map Live vs @ replicate k Raw)"
    using h by simp
  have pd: "ptr_diff pos (vbegin s this) = Some pos_n"
    by (simp add: pos ptr_diff_def ptr_add_def vbegin_def)
  have m: "post (move_loop T (buf, Suc pos_n) (buf, pos_n) (length xs - Suc pos_n) s)
       (\<lambda>u s'. heap s' = (heap s)(buf := Some (map Live (take pos_n xs) @ map Live vs @ Live z # replicate k Raw))
          \<and> log s' = log s @ map MoveAssign vs \<and> frame s s')
       (\<lambda>e s'. e = ElemThrow \<and> can_raise T)"
    using move_loop_block [OF h0, of T] lpre lvs by (simp add: z_def)
  have sm: "std_move T (ptr_add (vbegin s this) (Suc pos_n)) (vend s this)
              (ptr_add (vbegin s this) pos_n) s
            = move_loop T (buf, Suc pos_n) (buf, pos_n) (length xs - Suc pos_n) s"
    using lt len by (simp add: std_move_def ptr_diff_def ptr_add_def vbegin_def vend_def buf_def sz)
  from m show ?thesis
  proof (cases rule: post_cases)
    case (Ok u s1)
    then have h1: "heap s1 = (heap s)(buf := Some (map Live (take pos_n xs) @ map Live vs @ Live z # replicate k Raw))"
      and l1: "log s1 = log s @ map MoveAssign vs" and f1: "frame s s1"
      by simp_all
    have o1: "objs s1 = objs s" "next_addr s1 = next_addr s" "avail s1 = avail s"
      using f1 by (simp_all add: frame_def)
    have hd: "heap s1 buf = Some ((map Live (take pos_n xs) @ map Live vs) @ Live z # replicate k Raw)"
      by (simp add: h1)
    have li: "length xs - 1 = length (map Live (take pos_n xs) @ map Live vs)"
      using lt len lvs by simp
    from destroy_at_mid [OF hd li] obtain s2 where
      d: "destroy_at (buf, length xs - 1) s1 = Ok () s2"
      and h2: "heap s2 = (heap s1)(buf := Some ((map Live (take pos_n xs) @ map Live vs) @ Raw # replicate k Raw))"
      and l2: "log s2 = log s1 @ [Dtor z]" and f2: "frame s1 s2"
      by (auto dest!: post_total)
    have o2: "objs s2 = objs s" "next_addr s2 = next_addr s" "avail s2 = avail s"
      using f2 o1 by (simp_all add: frame_def)
    have pm: "ptr_minus (vend s1 this) (Suc 0) = Some (buf, length xs - 1)"
      using lt len by (simp add: ptr_minus_def vend_def o1 sz buf_def)
    have e: "Erase T this pos s = Ok pos (set_size this (Size s2 this - 1) s2)"
      by (simp add: Erase_def pd sm Ok(1) and_then_def pm d [simplified])
    show ?thesis
      unfolding e
      by (simp add: o2 Size_def h2 h1 l2 l1 xs_def k_def buf_def vs_def z_def)
  next
    case (Raise e s1)
    then show ?thesis
      by (simp add: Erase_def pd sm and_then_def)
  qed
qed


lemma elems_cong:
  "objs s' this = objs s that \<Longrightarrow> heap s' = heap s \<Longrightarrow> elems s' this = elems s that"
  by (simp add: elems_def split: option.splits)

lemma vec_ok_cong:
  "objs s' this = objs s that \<Longrightarrow> heap s' = heap s \<Longrightarrow> vec_ok s' this = vec_ok s that"
  using elems_cong [of s' this s that] by (simp add: vec_ok_def)

lemma example_int_never_raises: "\<not> can_raise example_int"
  by (simp add: can_raise_def raises_def example_int_def split: event.splits)

text \<open>
  Claim C7. For a vector that satisfies the class invariant and a position
  \<open>pos = begin() + pos_n\<close> with \<open>pos_n < size\<close>, \<open>Erase(pos)\<close> is defined, and it
  returns normally when no operation of the element type throws. When it returns,
  it returns \<open>pos\<close>; the elements after \<open>pos_n\<close> have been move-assigned one slot
  to the left, front to back, and then one object, the moved-from last one, has
  been destroyed; the size is one less, the slot at the new \<open>end()\<close> is raw, and
  the contents are the old ones without the element at \<open>pos_n\<close>, in the old order.
\<close>

theorem Erase_removes_one:
  assumes "vec_ok s this" and "pos_n < Size s this"
    and "pos = ptr_add (vbegin s this) pos_n"
  shows "Erase T this pos s \<noteq> Undefined
     \<and> (\<not> can_raise T \<longrightarrow> (\<exists>s'. Erase T this pos s = Ok pos s'))
     \<and> (\<forall>p s'. Erase T this pos s = Ok p s' \<longrightarrow>
          p = pos \<and> Size s' this = Size s this - 1
          \<and> elems s' this = take pos_n (elems s this) @ drop (Suc pos_n) (elems s this)
          \<and> log s' = log s @ map MoveAssign (drop (Suc pos_n) (elems s this)) @
               [Dtor (last (elems s this ! pos_n #
                            map (moved_from T) (drop (Suc pos_n) (elems s this))))]
          \<and> slot_at s' (vend s' this) = Some Raw
          \<and> Capacity s' this = Capacity s this \<and> vec_ok s' this)"
proof -
  note sp = Erase_spec [OF assms, of T]
  have len: "length (elems s this) = Size s this" and le: "Size s this \<le> Capacity s this"
    using assms(1) vec_okD [of s this] by simp_all
  have d: "Erase T this pos s \<noteq> Undefined"
    using sp by auto
  have t: "\<not> can_raise T \<longrightarrow> (\<exists>s'. Erase T this pos s = Ok pos s')"
    using sp by (cases "Erase T this pos s") auto
  have r: "p = pos \<and> Size s' this = Size s this - 1
          \<and> elems s' this = take pos_n (elems s this) @ drop (Suc pos_n) (elems s this)
          \<and> log s' = log s @ map MoveAssign (drop (Suc pos_n) (elems s this)) @
               [Dtor (last (elems s this ! pos_n #
                            map (moved_from T) (drop (Suc pos_n) (elems s this))))]
          \<and> slot_at s' (vend s' this) = Some Raw
          \<and> Capacity s' this = Capacity s this \<and> vec_ok s' this"
    if ok: "Erase T this pos s = Ok p s'" for p s'
  proof -
    let ?xs = "take pos_n (elems s this) @ drop (Suc pos_n) (elems s this)"
    let ?k = "Suc (Capacity s this - Size s this)"
    from sp ok have p: "p = pos"
      and o: "objs s' = (objs s)(this := (objs s this)\<lparr>size_m := Size s this - 1\<rparr>)"
      and h: "heap s' = (heap s)(buffer_m (data_m (objs s this)) := Some (map Live ?xs @ replicate ?k Raw))"
      and l: "log s' = log s @ map MoveAssign (drop (Suc pos_n) (elems s this)) @
               [Dtor (last (elems s this ! pos_n #
                            map (moved_from T) (drop (Suc pos_n) (elems s this))))]"
      by simp_all
    have lx: "length ?xs = Size s this - 1"
      using assms(2) len by auto
    have hb: "heap s' (buffer_m (data_m (objs s' this))) = Some (map Live ?xs @ replicate ?k Raw)"
      by (simp add: h o)
    have sz: "size_m (objs s' this) = length ?xs"
      using lx by (simp add: o)
    have cp: "capacity_m (data_m (objs s' this)) = length ?xs + ?k"
      using assms(2) le lx by (simp add: o Capacity_def)
    note v = vec_okI [OF hb sz cp]
    have hb': "heap s' (buffer_m (data_m (objs s' this))) = Some (map Live ?xs @ Raw # replicate (Capacity s this - Size s this) Raw)"
      using hb by simp
    have sl: "slot_at s' (vend s' this) = Some Raw"
      unfolding vend_def by (rule slot_at_mid [OF hb']) (simp add: sz)
    show ?thesis
      using p v sl l lx by (simp add: Size_def Capacity_def o)
  qed
  show ?thesis
    by (rule conjI, rule d, rule conjI, rule t, intro allI impI, erule r)
qed

theorem Erase_removes_one_witness:
  "vec_ok example_two 2 \<and> 2 < Size example_two 2 \<and> \<not> can_raise example_int
   \<and> (\<exists>s'. Erase example_int 2 (3, 2) example_two = Ok (3, 2) s'
         \<and> elems s' 2 = [7, 8, 5, 6] \<and> Size s' 2 = 4
         \<and> log s' = [MoveAssign 5, MoveAssign 6, Dtor 6])"
proof -
  have h: "vec_ok example_two 2" "2 < Size example_two 2"
    "(3, 2) = ptr_add (vbegin example_two 2) 2"
    by (simp_all add: example_two_ok)
      (simp_all add: Size_def example_two_def ptr_add_def vbegin_def)
  have v: "Size example_two 2 = 5" "log example_two = []" "moved_from example_int = (\<lambda>v. v)"
    by (simp_all add: Size_def example_two_def example_int_def)
  note e = Erase_removes_one [OF h, of example_int]
  from e example_int_never_raises obtain s' where
    ok: "Erase example_int 2 (3, 2) example_two = Ok (3, 2) s'"
    by blast
  from e ok have
    "elems s' 2 = take 2 (elems example_two 2) @ drop (Suc 2) (elems example_two 2)"
    "Size s' 2 = Size example_two 2 - 1"
    "log s' = log example_two @ map MoveAssign (drop (Suc 2) (elems example_two 2)) @
       [Dtor (last (elems example_two 2 ! 2 #
                    map (moved_from example_int) (drop (Suc 2) (elems example_two 2))))]"
    by blast+
  then have "elems s' 2 = [7, 8, 5, 6]" "Size s' 2 = 4"
    "log s' = [MoveAssign 5, MoveAssign 6, Dtor 6]"
    by (simp_all add: example_two_ok v)
  with ok h example_int_never_raises show ?thesis
    by blast
qed

text \<open>
  Claim C9, as amended. Move-construction, and move-assignment from a different
  vector, cannot fail: they are sequences of assignments to the data members,
  with no allocation and no operation on an element. They leave the source with
  size \<open>0\<close> and capacity \<open>0\<close>, and the destination with the source's former
  buffer, size and capacity, hence with its elements in their order. The heap
  and the log are as before.
\<close>

theorem move_takes_the_buffer:
  assumes "this \<noteq> rhs" and "s' = Vector_move_assign this rhs s \<or> s' = Vector_move_new this rhs s"
  shows "Size s' rhs = 0 \<and> Capacity s' rhs = 0
     \<and> objs s' this = objs s rhs
     \<and> Size s' this = Size s rhs \<and> Capacity s' this = Capacity s rhs
     \<and> elems s' this = elems s rhs
     \<and> heap s' = heap s \<and> log s' = log s
     \<and> (vec_ok s rhs \<longrightarrow> vec_ok s' this)"
proof -
  have o: "objs s' = (objs s)(this := objs s rhs, rhs := default_vector)"
    and h: "heap s' = heap s" and l: "log s' = log s"
    using assms
    by (auto simp: Vector_move_assign_objs Vector_move_new_objs Vector_move_assign_fields
        Vector_move_new_fields)
  have ot: "objs s' this = objs s rhs" and orr: "objs s' rhs = default_vector"
    using assms(1) by (simp_all add: o)
  show ?thesis
    using elems_cong [OF ot h] vec_ok_cong [OF ot h]
    by (simp add: ot orr h l Size_def Capacity_def default_vector_def RawMemory_default_def)
qed

theorem move_takes_the_buffer_witness:
  "(2::nat) \<noteq> 0
   \<and> elems (Vector_move_assign 2 0 example_two) 2 = [10, 20, 30]
   \<and> Size (Vector_move_assign 2 0 example_two) 0 = 0
   \<and> Capacity (Vector_move_assign 2 0 example_two) 0 = 0
   \<and> elems (Vector_move_new 5 2 example_two) 5 = [7, 8, 9, 5, 6]
   \<and> Size (Vector_move_new 5 2 example_two) 2 = 0"
  using move_takes_the_buffer [of 2 0 "Vector_move_assign 2 0 example_two" example_two]
    move_takes_the_buffer [of 5 2 "Vector_move_new 5 2 example_two" example_two]
  by (simp add: example_two_ok)

theorem self_move_assign_counterexample:
  "elems example_two 0 = [10, 20, 30]
   \<and> Size (Vector_move_assign 0 0 example_two) 0 = 0
   \<and> elems (Vector_move_assign 0 0 example_two) 0 = []"
  by (simp add: example_two_ok Vector_move_assign_self_objs Vector_move_assign_fields
      Size_def elems_def default_vector_def RawMemory_default_def)
    (simp add: example_two_def)

subsection \<open>Transfers into a new buffer\<close>

lemma constructed_append [simp]: "constructed (xs @ ys) = constructed xs @ constructed ys"
  by (induction xs rule: constructed.induct) simp_all

lemma destroyed_append [simp]: "destroyed (xs @ ys) = destroyed xs @ destroyed ys"
  by (induction xs rule: destroyed.induct) simp_all

lemma constructed_map [simp]:
  "constructed (map CopyCtor vs) = vs" "constructed (map MoveCtor vs) = vs"
  "constructed (map Ctor vs) = vs" "constructed (map Dtor vs) = []"
  "constructed (map CopyAssign vs) = []" "constructed (map MoveAssign vs) = []"
  by (induction vs) simp_all

lemma destroyed_map [simp]:
  "destroyed (map CopyCtor vs) = []" "destroyed (map MoveCtor vs) = []"
  "destroyed (map Ctor vs) = []" "destroyed (map Dtor vs) = vs"
  "destroyed (map CopyAssign vs) = []" "destroyed (map MoveAssign vs) = []"
  by (induction vs) simp_all

lemma constructed_init_event [simp]: "constructed [init_event a] = [init_value a]"
  by (cases a) simp_all

lemma destroyed_init_event [simp]: "destroyed [init_event a] = []"
  by (cases a) simp_all

lemma constructed_transfer [simp]: "constructed (map (transfer_event T) vs) = vs"
  by (cases "uses_move T") (simp_all add: transfer_event_move transfer_event_copy)

lemma destroyed_transfer [simp]: "destroyed (map (transfer_event T) vs) = []"
  by (cases "uses_move T") (simp_all add: transfer_event_move transfer_event_copy)

lemma uninit_move_loop_block:
  assumes ab: "a \<noteq> b"
  shows "heap s a = Some (spre @ map Live (map (moved_from T) dn) @ map Live todo @ srest) \<Longrightarrow>
     heap s b = Some (dpre @ map Live dn @ replicate (length todo) Raw @ drest) \<Longrightarrow>
     post (uninit_move_loop T (a, length spre) (b, length dpre) (length dn) (length todo) s)
       (\<lambda>u s'. heap s' = (heap s)(b := Some (dpre @ map Live (dn @ todo) @ drest),
                                   a := Some (spre @ map Live (map (moved_from T) (dn @ todo)) @ srest))
          \<and> log s' = log s @ map MoveCtor todo \<and> frame s s')
       (\<lambda>e s'. e = ElemThrow \<and> \<not> nothrow_move_constructible T \<and> can_raise T \<and>
          (\<exists>k<length todo.
             heap s' = (heap s)(b := Some (dpre @ replicate (length dn + length todo) Raw @ drest),
                                a := Some (spre @ map Live (map (moved_from T) (dn @ take k todo)) @
                                           map Live (drop k todo) @ srest))
             \<and> log s' = log s @ map MoveCtor (take k todo) @ map Dtor (dn @ take k todo)
             \<and> frame s s'))"
proof (induction todo arbitrary: dn s)
  case Nil
  then show ?case by (simp add: fun_upd_idem)
next
  case (Cons t todo)
  have ha: "heap s a = Some ((spre @ map Live (map (moved_from T) dn)) @ Live t # (map Live todo @ srest))"
    using Cons.prems(1) by simp
  have hb: "heap s b = Some ((dpre @ map Live dn) @ Raw # (replicate (length todo) Raw @ drest))"
    using Cons.prems(2) by simp
  have cc: "post (move_construct T (a, length spre + length dn) (b, length dpre + length dn) s)
     (\<lambda>u s'. heap s' = (heap s)(b := Some ((dpre @ map Live dn) @ Live t # (replicate (length todo) Raw @ drest)),
                     a := Some ((spre @ map Live (map (moved_from T) dn)) @ Live (moved_from T t) # (map Live todo @ srest)))
        \<and> log s' = log s @ [MoveCtor t] \<and> frame s s')
     (\<lambda>e s'. e = ElemThrow \<and> s' = s \<and> \<not> nothrow_move_constructible T \<and> can_raise T)"
    by (rule move_construct_mid [OF ab ha _ hb]) simp_all
  show ?case
  proof (cases "move_construct T (a, length spre + length dn) (b, length dpre + length dn) s")
    case (Ok u s1)
    with cc have h1: "heap s1 = (heap s)(b := Some ((dpre @ map Live dn) @ Live t # (replicate (length todo) Raw @ drest)),
                     a := Some ((spre @ map Live (map (moved_from T) dn)) @ Live (moved_from T t) # (map Live todo @ srest)))"
      and l1: "log s1 = log s @ [MoveCtor t]" and f1: "frame s s1"
      by simp_all
    have a1: "heap s1 a = Some (spre @ map Live (map (moved_from T) (dn @ [t])) @ map Live todo @ srest)"
      by (simp add: h1)
    have b1: "heap s1 b = Some (dpre @ map Live (dn @ [t]) @ replicate (length todo) Raw @ drest)"
      using ab by (simp add: h1)
    have "post (uninit_move_loop T (a, length spre) (b, length dpre) (Suc (length dn)) (length todo) s1)
       (\<lambda>u s'. heap s' = (heap s)(b := Some (dpre @ map Live (dn @ t # todo) @ drest),
                                   a := Some (spre @ map Live (map (moved_from T) (dn @ t # todo)) @ srest))
          \<and> log s' = log s @ map MoveCtor (t # todo) \<and> frame s s')
       (\<lambda>e s'. e = ElemThrow \<and> \<not> nothrow_move_constructible T \<and> can_raise T \<and>
          (\<exists>k<length (t # todo).
             heap s' = (heap s)(b := Some (dpre @ replicate (length dn + length (t # todo)) Raw @ drest),
                                a := Some (spre @ map Live (map (moved_from T) (dn @ take k (t # todo))) @
                                           map Live (drop k (t # todo)) @ srest))
             \<and> log s' = log s @ map MoveCtor (take k (t # todo)) @ map Dtor (dn @ take k (t # todo))
             \<and> frame s s'))"
    proof (rule post_weaken [OF Cons.IH [OF a1 b1, simplified]], goal_cases)
      case (1 x s')
      then show ?case using ab by (simp add: h1 l1 frame_trans [OF f1] fun_upd_twist)
    next
      case (2 e s')
      then obtain k where k: "k < length todo"
        and h': "heap s' = (heap s1)(b := Some (dpre @ replicate (Suc (length dn + length todo)) Raw @ drest),
                  a := Some (spre @ map Live (map (moved_from T) dn) @ Live (moved_from T t) #
                             map Live (map (moved_from T) (take k todo)) @ map Live (drop k todo) @ srest))"
        and l': "log s' = log s1 @ map MoveCtor (take k todo) @ map Dtor dn @ Dtor t # map Dtor (take k todo)"
        and f': "frame s1 s'" and e: "e = ElemThrow" "\<not> nothrow_move_constructible T" "can_raise T"
        by auto
      show ?case
        using k e ab
        by (intro conjI exI [of _ "Suc k"]) (simp_all add: h' l' h1 l1 frame_trans [OF f1 f'] fun_upd_twist)
    qed
    then show ?thesis
      by (simp add: Ok ptr_add_def)
  next
    case (Raise e s1)
    with cc have e: "e = ElemThrow" and s1: "s1 = s"
      and r: "\<not> nothrow_move_constructible T" "can_raise T"
      by simp_all
    have "heap s b = Some (dpre @ map Live dn @ (replicate (length (t # todo)) Raw @ drest))"
      using Cons.prems(2) by simp
    from destroy_n_run [OF this refl refl] obtain s2 where
      d: "destroy_n (b, length dpre) (length dn) s = Ok () s2"
      and h2: "heap s2 = (heap s)(b := Some (dpre @ replicate (length dn) Raw @ replicate (length (t # todo)) Raw @ drest))"
      and l2: "log s2 = log s @ map Dtor dn" and f2: "frame s s2"
      by auto
    show ?thesis
      apply (simp add: Raise ptr_add_def s1 d e r)
      apply (rule exI [of _ 0])
      apply (simp add: h2 l2 f2 replicate_append2 del: replicate_Suc)
      apply (insert ab Cons.prems(1))
      apply (simp add: fun_upd_idem)
      done
  next
    case Undefined
    with cc show ?thesis by simp
  qed
qed


lemma uninitialized_move_n_spec:
  assumes "a \<noteq> b" "heap s a = Some (spre @ map Live vs @ srest)" "i = length spre"
    "heap s b = Some (dpre @ replicate n Raw @ drest)" "j = length dpre" "n = length vs"
  shows "post (uninitialized_move_n T (a, i) n (b, j) s)
       (\<lambda>u s'. heap s' = (heap s)(b := Some (dpre @ map Live vs @ drest),
                                   a := Some (spre @ map Live (map (moved_from T) vs) @ srest))
          \<and> log s' = log s @ map MoveCtor vs \<and> frame s s')
       (\<lambda>e s'. e = ElemThrow \<and> \<not> nothrow_move_constructible T \<and> can_raise T \<and>
          (\<exists>k<length vs.
             heap s' = (heap s)(a := Some (spre @ map Live (map (moved_from T) (take k vs)) @
                                           map Live (drop k vs) @ srest))
             \<and> log s' = log s @ map MoveCtor (take k vs) @ map Dtor (take k vs)
             \<and> frame s s'))"
proof -
  have ha: "heap s a = Some (spre @ map Live (map (moved_from T) []) @ map Live vs @ srest)"
    using assms by simp
  have hb: "heap s b = Some (dpre @ map Live [] @ replicate (length vs) Raw @ drest)"
    using assms by simp
  have idem: "(heap s)(b := Some (dpre @ replicate (length vs) Raw @ drest), a := X)
      = (heap s)(a := X)" for X
    using assms(1,4,6) by (simp add: fun_upd_twist [of a b] fun_upd_idem)
  show ?thesis
    unfolding uninitialized_move_n_def
    using uninit_move_loop_block [OF assms(1) ha hb] assms(3,5,6)
    by (auto elim!: post_weaken simp: idem)
qed

lemma MoveOrCopy_spec:
  assumes "a \<noteq> b" "heap s a = Some (spre @ map Live vs @ srest)" "i = length spre"
    "heap s b = Some (dpre @ replicate n Raw @ drest)" "j = length dpre" "n = length vs"
  shows "post (MoveOrCopy T (a, i) n (b, j) s)
       (\<lambda>u s'. heap s' = (heap s)(b := Some (dpre @ map Live vs @ drest),
                                   a := Some (spre @ map Live (map (left_behind T) vs) @ srest))
          \<and> log s' = log s @ map (transfer_event T) vs \<and> frame s s'
          \<and> (\<not> uses_move T \<longrightarrow>
                (\<forall>k<length vs. \<not> raises T (log s @ map CopyCtor (take k vs)) (CopyCtor (vs ! k)))))
       (\<lambda>e s'. e = ElemThrow \<and> can_raise T \<and> frame s s' \<and>
          (\<exists>blk evs. heap s' = (heap s)(a := Some blk)
             \<and> length blk = length spre + length vs + length srest
             \<and> (\<not> uses_move T \<longrightarrow> blk = spre @ map Live vs @ srest)
             \<and> log s' = log s @ evs \<and> constructed evs = destroyed evs))"
proof (cases "uses_move T")
  case True
  have eq: "MoveOrCopy T (a, i) n (b, j) s = uninitialized_move_n T (a, i) n (b, j) s"
    using True by (simp add: MoveOrCopy_def uses_move_def)
  have m: "map (left_behind T) vs = map (moved_from T) vs" "map (transfer_event T) vs = map MoveCtor vs"
    using True by (simp_all add: left_behind_move transfer_event_move)
  show ?thesis
    unfolding eq m
  proof (rule post_weaken [OF uninitialized_move_n_spec [OF assms]], goal_cases)
    case (1 x s')
    then show ?case using True by simp
  next
    case (2 e s')
    then obtain k where k: "k < length vs"
      and h: "heap s' = (heap s)(a := Some (spre @ map Live (map (moved_from T) (take k vs)) @
                                           map Live (drop k vs) @ srest))"
      and l: "log s' = log s @ map MoveCtor (take k vs) @ map Dtor (take k vs)"
      and f: "frame s s'" and e: "e = ElemThrow" "can_raise T"
      by auto
    show ?case
      apply (intro conjI e f)
      apply (rule exI [of _ "spre @ map Live (map (moved_from T) (take k vs)) @ map Live (drop k vs) @ srest"])
      apply (rule exI [of _ "map MoveCtor (take k vs) @ map Dtor (take k vs)"])
      using k True apply (simp add: h l)
      done
  qed
next
  case False
  have eq: "MoveOrCopy T (a, i) n (b, j) s = uninitialized_copy_n T (a, i) n (b, j) s"
    using False by (simp add: MoveOrCopy_def uses_move_def)
  have m: "map (left_behind T) vs = vs" "map (transfer_event T) vs = map CopyCtor vs"
    using False by (simp_all add: left_behind_copy transfer_event_copy)
  have idem: "(heap s)(b := Some (dpre @ map Live vs @ drest), a := Some (spre @ map Live vs @ srest))
      = (heap s)(b := Some (dpre @ map Live vs @ drest))"
    using assms(1,2) by (simp add: fun_upd_idem)
  show ?thesis
    unfolding eq m idem
  proof (rule post_weaken [OF uninitialized_copy_n_spec [OF assms]], goal_cases)
    case (1 x s')
    then show ?case by simp
  next
    case (2 e s')
    then obtain k where k: "k < length vs"
      and h: "heap s' = heap s"
      and l: "log s' = log s @ map CopyCtor (take k vs) @ map Dtor (take k vs)"
      and f: "frame s s'" and e: "e = ElemThrow" "can_raise T"
      by auto
    show ?case
      apply (intro conjI e f)
      apply (rule exI [of _ "spre @ map Live vs @ srest"])
      apply (rule exI [of _ "map CopyCtor (take k vs) @ map Dtor (take k vs)"])
      using assms(2) apply (simp add: h l fun_upd_idem)
      done
  qed
qed

subsection \<open>Auxiliary facts for reallocation\<close>

lemma fresh_addr:
  assumes "mem_ok s" "heap s b = Some blk"
  shows "heap s (next_addr s) = None" "b < next_addr s" "next_addr s \<noteq> b" "next_addr s \<noteq> 0"
proof -
  show n: "heap s (next_addr s) = None" using assms(1) by (simp add: mem_ok_def)
  show "b < next_addr s"
  proof (rule ccontr)
    assume "\<not> b < next_addr s"
    then have "heap s b = None" using assms(1) by (simp add: mem_ok_def)
    with assms(2) show False by simp
  qed
  then show "next_addr s \<noteq> b" by simp
  show "next_addr s \<noteq> 0" using assms(1) by (simp add: mem_ok_def)
qed

lemma null_block: "mem_ok s \<Longrightarrow> heap s 0 = Some []"
  by (simp add: mem_ok_def)

lemma allocated_below_above: "n \<le> b \<Longrightarrow> allocated_below (h(b := x)) n = allocated_below h n"
  by (induction n) simp_all

lemma allocated_below_upd:
  "b < n \<Longrightarrow> allocated_below (h(b := x)) n + block_slots (h b) = allocated_below h n + block_slots x"
proof (induction n)
  case 0
  then show ?case by simp
next
  case (Suc n)
  show ?case
  proof (cases "b = n")
    case True
    then show ?thesis by (simp add: allocated_below_above)
  next
    case False
    then have "b < n" using Suc.prems by simp
    from Suc.IH [OF this] show ?thesis using False by simp
  qed
qed

lemma block_le_allocated:
  assumes "mem_ok s" "heap s b = Some blk"
  shows "length blk \<le> allocated s"
proof -
  have "b < n \<Longrightarrow> block_slots (h b) \<le> allocated_below h n" for n and h :: "addr \<Rightarrow> 'a slot list option"
  proof (induction n)
    case 0
    then show ?case by simp
  next
    case (Suc n)
    then show ?case by (cases "b = n") auto
  qed
  from this [OF fresh_addr(2) [OF assms], of "heap s"] show ?thesis
    by (simp add: allocated_def assms(2))
qed

lemma no_wrap_growth:
  assumes "mem_ok s" "heap s b = Some blk"
  shows "0 < slot_bytes s"
    and "(if length blk = 0 then Suc 0 else length blk * 2) * slot_bytes s < 2 ^ 64"
proof -
  let ?z = "slot_bytes s" and ?A = "allocated s"
  show z: "0 < ?z" using assms(1) by (simp add: mem_ok_def)
  have t: "(avail s + ?A + 1) * ?z \<le> 2 ^ 63" using assms(1) by (simp add: mem_ok_def)
  have "(?A + 1) * ?z \<le> (avail s + ?A + 1) * ?z" by (rule mult_le_mono1) simp
  from this t have b: "(?A + 1) * ?z \<le> 2 ^ 63" by (rule order_trans)
  have n: "length blk \<le> ?A" by (rule block_le_allocated [OF assms])
  show "(if length blk = 0 then Suc 0 else length blk * 2) * ?z < 2 ^ 64"
  proof (cases "length blk = 0")
    case True
    have "?z \<le> (?A + 1) * ?z" by simp
    from this b have "?z \<le> 2 ^ 63" by (rule order_trans)
    then show ?thesis using True by simp
  next
    case False
    have "length blk * ?z \<le> ?A * ?z" using n by (rule mult_le_mono1)
    moreover have "?A * ?z < (?A + 1) * ?z" using z by simp
    ultimately have "length blk * ?z < (?A + 1) * ?z" by (rule le_less_trans)
    from this b have "length blk * ?z < 2 ^ 63" by (rule less_le_trans)
    then have "length blk * 2 * ?z < 2 ^ 64" by (simp add: mult.commute)
    then show ?thesis using False by simp
  qed
qed

lemma mem_okI:
  "mem_ok s \<Longrightarrow> heap s' 0 = Some [] \<Longrightarrow> 0 < next_addr s' \<Longrightarrow>
   (\<And>c. next_addr s' \<le> c \<Longrightarrow> heap s' c = None) \<Longrightarrow> slot_bytes s' = slot_bytes s \<Longrightarrow>
   avail s' + allocated s' = avail s + allocated s \<Longrightarrow> mem_ok s'"
  by (simp add: mem_ok_def)

lemma mem_ok_in_place:
  assumes "mem_ok s" "heap s b = Some blk" "heap s' = (heap s)(b := Some blk')"
    "length blk' = length blk" "next_addr s' = next_addr s" "avail s' = avail s"
    "slot_bytes s' = slot_bytes s"
  shows "mem_ok s'"
proof -
  have lt: "b < next_addr s" by (rule fresh_addr(2) [OF assms(1,2)])
  have "heap s' 0 = Some []"
    using null_block [OF assms(1)] assms(2,4) by (cases "b = 0") (simp_all add: assms(3))
  moreover have "heap s' c = None" if "next_addr s \<le> c" for c
  proof -
    have "c \<noteq> b" using lt that by simp
    moreover have "heap s c = None" using assms(1) that by (simp add: mem_ok_def)
    ultimately show ?thesis by (simp add: assms(3))
  qed
  moreover have "allocated s' = allocated s"
    using allocated_below_upd [OF lt, of "heap s" "Some blk'"]
    by (simp add: allocated_def assms(2-5))
  ultimately show ?thesis
    using assms(1) by (simp add: mem_ok_def assms(5-7))
qed

lemma mem_ok_rolled_back:
  assumes "mem_ok s" "heap s b = Some blk" "heap s' = (heap s)(b := Some blk')"
    "length blk' = length blk" "next_addr s' = Suc (next_addr s)" "avail s' = avail s"
    "slot_bytes s' = slot_bytes s"
  shows "mem_ok s'"
proof -
  note fr = fresh_addr [OF assms(1,2)]
  have "heap s' 0 = Some []"
    using null_block [OF assms(1)] assms(2,4) by (cases "b = 0") (simp_all add: assms(3))
  moreover have "heap s' c = None" if "Suc (next_addr s) \<le> c" for c
  proof -
    have "c \<noteq> b" using fr(2) that by simp
    moreover have "heap s c = None" using assms(1) that by (simp add: mem_ok_def)
    ultimately show ?thesis by (simp add: assms(3))
  qed
  moreover have "allocated s' = allocated s"
    using allocated_below_upd [OF fr(2), of "heap s" "Some blk'"] fr(1,3)
    by (simp add: allocated_def assms(2-5))
  ultimately show ?thesis
    using assms(1) by (simp add: mem_ok_def assms(5-7))
qed

lemma mem_ok_moved:
  assumes "mem_ok s" "heap s b = Some blk"
    "heap s' = (heap s)(next_addr s := Some nblk, b := (if b = 0 then Some [] else None))"
    "next_addr s' = Suc (next_addr s)" "avail s' + length nblk = avail s + length blk"
    "slot_bytes s' = slot_bytes s"
  shows "mem_ok s'"
proof -
  note fr = fresh_addr [OF assms(1,2)]
  let ?h1 = "(heap s)(next_addr s := Some nblk)"
  have "heap s' 0 = Some []"
    using null_block [OF assms(1)] fr(4) by (cases "b = 0") (simp_all add: assms(3))
  moreover have "heap s' c = None" if "Suc (next_addr s) \<le> c" for c
  proof -
    have "c \<noteq> b" "c \<noteq> next_addr s" using fr(2) that by simp_all
    moreover have "heap s c = None" using assms(1) that by (simp add: mem_ok_def)
    ultimately show ?thesis by (simp add: assms(3))
  qed
  moreover have "allocated s' + length blk = allocated s + length nblk"
  proof -
    have "allocated_below (?h1(b := (if b = 0 then Some [] else None))) (next_addr s)
        + block_slots (?h1 b) = allocated_below ?h1 (next_addr s)
        + block_slots (if b = 0 then Some [] else (None :: 'a slot list option))"
      by (rule allocated_below_upd [OF fr(2)])
    moreover have "allocated_below ?h1 (next_addr s) = allocated_below (heap s) (next_addr s)"
      by (rule allocated_below_above) simp
    moreover have "?h1 b = Some blk" using fr(3) assms(2) by simp
    moreover have "heap s' (next_addr s) = Some nblk" using fr(3) by (simp add: assms(3))
    ultimately show ?thesis
      by (simp add: allocated_def assms(3,4))
  qed
  then have "avail s' + allocated s' = avail s + allocated s"
    using assms(5) by linarith
  ultimately show ?thesis
    by (intro mem_okI [OF assms(1)]) (simp_all add: assms(4,6))
qed

lemma mem_ok_cong:
  "mem_ok s \<Longrightarrow> heap s' = heap s \<Longrightarrow> next_addr s' = next_addr s \<Longrightarrow> avail s' = avail s \<Longrightarrow>
   slot_bytes s' = slot_bytes s \<Longrightarrow> mem_ok s'"
  by (simp add: mem_ok_def allocated_def)


lemma destroy_n_spec:
  "heap s a = Some (pre @ map Live vs @ rest) \<Longrightarrow> i = length pre \<Longrightarrow> n = length vs \<Longrightarrow>
   post (destroy_n (a, i) n s)
     (\<lambda>u s'. heap s' = (heap s)(a := Some (pre @ replicate (length vs) Raw @ rest))
        \<and> log s' = log s @ map Dtor vs \<and> frame s s')
     (\<lambda>e s'. False)"
  using destroy_n_block [of s a pre vs rest] by simp

lemma RawMemory_delete_block:
  assumes "buffer_m r = 0 \<or> heap s (buffer_m r) \<noteq> None"
  shows "post (RawMemory_delete r s)
     (\<lambda>u s'. heap s' = (if buffer_m r = 0 then heap s else (heap s)(buffer_m r := None))
        \<and> avail s' = (if buffer_m r = 0 then avail s
                       else avail s + length (the (heap s (buffer_m r))))
        \<and> next_addr s' = next_addr s \<and> objs s' = objs s \<and> log s' = log s
        \<and> slot_bytes s' = slot_bytes s)
     (\<lambda>e s'. False)"
  using assms by (auto simp: RawMemory_delete_def Deallocate_def)

lemma replicate_split:
  "i < m \<Longrightarrow> replicate m x = replicate i x @ x # replicate (m - Suc i) x"
proof -
  assume "i < m"
  then have "m = i + Suc (m - Suc i)" by simp
  then have "replicate m x = replicate (i + Suc (m - Suc i)) x" by simp
  then show ?thesis by (simp only: replicate_add replicate_Suc)
qed

lemma replicate_split2:
  "i + j \<le> m \<Longrightarrow> replicate m x = replicate i x @ replicate j x @ replicate (m - (i + j)) x"
proof -
  assume "i + j \<le> m"
  then have "m = i + (j + (m - (i + j)))" by simp
  then have "replicate m x = replicate (i + (j + (m - (i + j)))) x" by simp
  then show ?thesis by (simp only: replicate_add)
qed

subsection \<open>\<open>PlaceWithRealloc\<close>\<close>

lemma RawMemory_update_all [simp]:
  "(r :: RawMemory)\<lparr>buffer_m := a, capacity_m := c\<rparr> = \<lparr>buffer_m = a, capacity_m = c\<rparr>"
  by (cases r) simp

lemma fun_upd_both: "a \<noteq> b \<Longrightarrow> f(a := x, b := y, a := x', b := y') = f(a := x', b := y')"
  by (rule ext) (simp add: fun_upd_apply)

lemma fun_upd_first: "a \<noteq> b \<Longrightarrow> f(a := x, b := y, a := x') = f(a := x', b := y)"
  by (rule ext) (simp add: fun_upd_apply)

lemma constructed_init_Cons [simp]:
  "constructed (init_event a # r) = init_value a # constructed r"
  by (cases a) simp_all

lemma destroyed_init_Cons [simp]: "destroyed (init_event a # r) = destroyed r"
  by (cases a) simp_all

lemma PlaceWithRealloc_spec:
  assumes mem: "mem_ok s" and ok: "vec_ok s this"
    and full: "Capacity s this < Size s this + 1"
    and pos: "pos = ptr_add (vbegin s this) pos_n" and le: "pos_n \<le> Size s this"
  shows "post (PlaceWithRealloc T this pos a s)
     (\<lambda>p s'. p = (next_addr s, pos_n)
        \<and> objs s' = (objs s)(this := (objs s this)
             \<lparr>data_m := \<lparr>buffer_m = next_addr s,
                         capacity_m = (if Size s this = 0 then Suc 0 else Size s this * 2)\<rparr>\<rparr>)
        \<and> heap s' (next_addr s) =
             Some (map Live (take pos_n (elems s this) @ init_value a # drop pos_n (elems s this)) @
                   replicate ((if Size s this = 0 then Suc 0 else Size s this * 2) - Suc (Size s this)) Raw)
        \<and> mem_ok s'
        \<and> avail s' + (if Size s this = 0 then Suc 0 else Size s this * 2) = avail s + Size s this
        \<and> log s' = log s @ init_event a # map (transfer_event T) (elems s this) @
             map Dtor (map (left_behind T) (elems s this))
        \<and> \<not> raises T (log s) (init_event a)
        \<and> (\<not> uses_move T \<longrightarrow>
             (\<forall>k<Size s this. \<not> raises T (log s @ init_event a # map CopyCtor (take k (elems s this)))
                                    (CopyCtor (elems s this ! k)))))
     (\<lambda>e s'. (e = BadAlloc \<and> s' = s
           \<and> avail s < (if Size s this = 0 then Suc 0 else Size s this * 2)) \<or>
        (e = ElemThrow \<and> can_raise T \<and> objs s' = objs s \<and> mem_ok s' \<and> avail s' = avail s
           \<and> (\<not> uses_move T \<longrightarrow> heap s' = heap s)
           \<and> (\<exists>evs. log s' = log s @ evs \<and> mset (constructed evs) = mset (destroyed evs))))"
proof -
  define xs where "xs = elems s this"
  define n where "n = length xs"
  define buf where "buf = buffer_m (data_m (objs s this))"
  define na where "na = next_addr s"
  define nc where "nc = (if n = 0 then Suc 0 else n * 2)"
  define x where "x = init_value a"
  have sz: "size_m (objs s this) = n" and cp: "capacity_m (data_m (objs s this)) = n"
    and hb: "heap s buf = Some (map Live xs)"
    using ok full vec_okD [of s this] by (simp_all add: xs_def n_def buf_def Size_def Capacity_def)
  have le': "pos_n \<le> n" using le sz by (simp add: Size_def)
  have nc: "Suc n \<le> nc" by (simp add: nc_def)
  note fr = fresh_addr [OF mem hb, folded na_def]
  have pd: "ptr_diff pos (vbegin s this) = Some pos_n"
    by (simp add: pos ptr_diff_def ptr_add_def vbegin_def)
  have nc0: "nc \<noteq> 0" by (simp add: nc_def)
  have buf0: "n = 0" if "buf = 0"
    using hb null_block [OF mem] that by (simp add: n_def)
  have ifnc: "(if size_m (objs s this) = 0 then 1 else size_m (objs s this) * 2) = nc"
    by (simp add: nc_def sz)
  have lxs: "length xs = n" by (simp add: n_def)
  have sb: "0 < slot_bytes s" by (rule no_wrap_growth(1) [OF mem hb])
  have nw: "nc * slot_bytes s < 2 ^ 64"
    using no_wrap_growth(2) [OF mem hb] by (cases "n = 0") (simp_all add: nc_def lxs)
  have memI: "mem_ok t"
    if "next_addr t = Suc na" "heap t = (heap s)(buf := Some blk)" "length blk = n"
      "avail t = avail s" "slot_bytes t = slot_bytes s" for t :: "'a state" and blk
    by (rule mem_ok_rolled_back [OF mem hb that(2) _ _ that(4,5)]) (simp_all add: that lxs na_def)
  show ?thesis
    apply (simp only: PlaceWithRealloc_def pd option.case full if_True)
    apply (simp only: vbegin_def ptr_add_def fst_conv snd_conv add_0 Size_def ifnc)
  proof (rule post_and_then, rule post_weaken [OF RawMemory_new_spec [OF nc0 sb nw]], goal_cases)
    case (2 e s1)
    then show ?case by (simp add: nc_def sz split: if_splits)
  next
    case (1 nd s1)
    then have nd: "nd = \<lparr>buffer_m = na, capacity_m = nc\<rparr>"
      and h1: "heap s1 = (heap s)(na := Some (replicate nc Raw))"
      and n1: "next_addr s1 = Suc na" and av1: "avail s1 = avail s - nc" "nc \<le> avail s"
      and o1: "objs s1 = objs s" and l1: "log s1 = log s"
      and sb1: "slot_bytes s1 = slot_bytes s"
      by (simp_all add: na_def)
    have bn: "buffer_m nd = na" by (simp add: nd)
    have pn: "pos_n < nc" using le' nc by simp
    have hn1: "heap s1 (buffer_m nd) = Some (replicate pos_n Raw @ Raw # replicate (nc - Suc pos_n) Raw)"
      using replicate_split [OF pn, of "Raw :: 'a slot"] by (simp add: h1 bn)
    have ip: "pos_n = length (replicate pos_n (Raw :: 'a slot))" by simp
    \<comment> \<open>what is left to show once the new block has been released after an exception\<close>
    have released: "post (RawMemory_delete nd t)
        (\<lambda>u s'. (e = BadAlloc \<and> s' = s
             \<and> avail s < (if size_m (objs s this) = 0 then Suc 0 else size_m (objs s this) * 2)) \<or>
          (e = ElemThrow \<and> can_raise T \<and> objs s' = objs s \<and> mem_ok s' \<and> avail s' = avail s
             \<and> (\<not> uses_move T \<longrightarrow> heap s' = heap s)
             \<and> (\<exists>evs. log s' = log s @ evs \<and> mset (constructed evs) = mset (destroyed evs))))
        (\<lambda>e' s'. False)"
      if t: "heap t = (heap s)(na := Some nblk, buf := Some blk)" "length nblk = nc" "length blk = n"
        "\<not> uses_move T \<longrightarrow> blk = map Live xs"
        "objs t = objs s" "next_addr t = Suc na" "avail t = avail s - nc"
        "slot_bytes t = slot_bytes s"
        "log t = log s @ evs" "mset (constructed evs) = mset (destroyed evs)"
        "e = ElemThrow" "can_raise T"
      for t :: "'a state" and nblk blk evs e
    proof -
      have hna: "heap t na = Some nblk" using fr(3) by (simp add: t(1))
      have pre: "buffer_m nd = 0 \<or> heap t (buffer_m nd) \<noteq> None" by (simp add: bn hna)
      show ?thesis
      proof (rule post_weaken [OF RawMemory_delete_block [OF pre]], goal_cases)
        case (1 u s')
        then have h': "heap s' = (heap t)(na := None)"
          and av': "avail s' = avail t + nc"
          and r': "next_addr s' = next_addr t" "objs s' = objs t" "log s' = log t"
            "slot_bytes s' = slot_bytes t"
          using fr(4) by (simp_all add: bn hna t(2))
        have hs: "heap s' = (heap s)(buf := Some blk)"
          using fr(1,3) by (simp add: h' t(1) fun_upd_twist [of na buf] fun_upd_idem)
        have "mem_ok s'"
          using av1(2) by (intro memI [OF _ hs t(3)]) (simp_all add: r' av' t)
        moreover have "heap s' = heap s" if "\<not> uses_move T"
          using that t(4) hb by (simp add: hs fun_upd_idem)
        ultimately show ?case
          using t av1(2) by (auto simp: r' av')
      next
        case (2 e' s')
        then show ?case by simp
      qed
    qed
    show ?case
    proof (rule post_and_then, rule post_on_throw, rule post_and_then,
        rule post_weaken [OF construct_at_mid [OF hn1 ip]], goal_cases)
      case (2 e s2)
      then have e: "e = ElemThrow" "s2 = s1" and cr: "can_raise T"
        by (auto intro: can_raiseI)
      have "heap s1 = (heap s)(na := Some (replicate nc Raw), buf := Some (map Live xs))"
        using hb fr(3) by (simp add: h1 fun_upd_idem)
      from released [OF this, of "[]" e] show ?case
        by (simp add: e o1 n1 av1 l1 sb1 cr lxs)
    next
      case (1 u s2)
      then have H2: "heap s2 = (heap s)(na := Some (replicate pos_n Raw @ Live x # replicate (nc - Suc pos_n) Raw),
                                       buf := Some (map Live xs))"
        and l2: "log s2 = log s @ [init_event a]" and f2: "frame s1 s2"
        and nr2: "\<not> raises T (log s) (init_event a)"
        using hb fr(3) by (simp_all add: h1 bn l1 x_def fun_upd_idem)
      have o2: "objs s2 = objs s" and n2: "next_addr s2 = Suc na" and av2: "avail s2 = avail s - nc"
        and sb2: "slot_bytes s2 = slot_bytes s"
        using f2 o1 n1 av1 sb1 by (simp_all add: frame_def)
      have b2: "buffer_m (data_m (objs s2 this)) = buf" by (simp add: o2 buf_def)
      have ab2: "buffer_m (data_m (objs s2 this)) \<noteq> buffer_m nd"
        using fr(3) by (simp add: b2 bn)
      have ha2: "heap s2 (buffer_m (data_m (objs s2 this))) =
          Some ([] @ map Live (take pos_n xs) @ map Live (drop pos_n xs))"
        by (simp add: b2 H2 flip: map_append)
      have i0: "0 = length ([] :: 'a slot list)" by simp
      have hb2: "heap s2 (buffer_m nd) =
          Some ([] @ replicate pos_n Raw @ (Live x # replicate (nc - Suc pos_n) Raw))"
        using fr(3) by (simp add: bn H2)
      have np: "pos_n = length (take pos_n xs)" using le' lxs by simp
      have ip3: "pos_n = length (map Live (take pos_n xs))" using np by simp
      show ?case
      proof (rule post_and_then, rule post_on_throw,
          rule post_weaken [OF MoveOrCopy_spec [OF ab2 ha2 i0 hb2 i0 np]], goal_cases)
        case (2 e s3)
        then obtain blk evs where e: "e = ElemThrow" "can_raise T" and f3: "frame s2 s3"
          and h3: "heap s3 = (heap s2)(buffer_m (data_m (objs s2 this)) := Some blk)"
          and lb: "length blk = n" and cb: "\<not> uses_move T \<longrightarrow> blk = map Live xs"
          and l3: "log s3 = log s2 @ evs" and ev: "constructed evs = destroyed evs"
          using le' lxs by (auto simp flip: map_append)
        have H3: "heap s3 = (heap s)(na := Some (replicate pos_n Raw @ Live x # replicate (nc - Suc pos_n) Raw),
                                       buf := Some blk)"
          by (simp add: h3 b2 H2)
        have h3n: "heap s3 (buffer_m nd) = Some (replicate pos_n Raw @ Live x # replicate (nc - Suc pos_n) Raw)"
          using fr(3) by (simp add: bn H3)
        show ?case
        proof (rule post_weaken [OF destroy_at_mid [OF h3n ip]], goal_cases)
          case (1 u s4)
          then have H4: "heap s4 = (heap s)(na := Some (replicate pos_n Raw @ Raw # replicate (nc - Suc pos_n) Raw),
                                       buf := Some blk)"
            and l4: "log s4 = log s @ ([init_event a] @ evs @ [Dtor x])" and f4: "frame s3 s4"
            using fr(3) by (simp_all add: bn H3 l3 l2 fun_upd_twist [of na buf])
          have r4: "objs s4 = objs s" "next_addr s4 = Suc na" "avail s4 = avail s - nc"
            "slot_bytes s4 = slot_bytes s"
            using f4 f3 o2 n2 av2 sb2 by (simp_all add: frame_def)
          show ?case
            by (rule released [OF H4 _ lb cb r4 l4 _ e]) (use pn in \<open>simp_all add: ev x_def\<close>)
        next
          case (2 e' s4)
          then show ?case by simp
        qed
      next
        case (1 u s3)
        then have H3: "heap s3 = (heap s)(na := Some (map Live (take pos_n xs) @ Live x # replicate (nc - Suc pos_n) Raw),
                                       buf := Some (map Live (map (left_behind T) (take pos_n xs)) @ map Live (drop pos_n xs)))"
          and l3: "log s3 = log s @ init_event a # map (transfer_event T) (take pos_n xs)"
          and f3: "frame s2 s3"
          using fr(3) by (simp_all add: bn b2 H2 l2 fun_upd_both)
        from 1 have q3: "\<not> uses_move T \<longrightarrow>
            (\<forall>k<length (take pos_n xs).
               \<not> raises T (log s2 @ map CopyCtor (take k (take pos_n xs))) (CopyCtor (take pos_n xs ! k)))"
          by blast
        have nr3: "\<not> raises T (log s @ init_event a # map CopyCtor (take k xs)) (CopyCtor (xs ! k))"
          if c: "\<not> uses_move T" and k: "k < pos_n" for k
        proof -
          have "k < length (take pos_n xs)" using k le' lxs by simp
          with q3 c have "\<not> raises T (log s2 @ map CopyCtor (take k (take pos_n xs)))
              (CopyCtor (take pos_n xs ! k))"
            by blast
          moreover have "take k (take pos_n xs) = take k xs" using k by (simp add: min_def)
          moreover have "take pos_n xs ! k = xs ! k" using k by simp
          ultimately show ?thesis by (simp add: l2)
        qed
        have o3: "objs s3 = objs s" and n3: "next_addr s3 = Suc na" and av3: "avail s3 = avail s - nc"
          and sb3: "slot_bytes s3 = slot_bytes s"
          using f3 o2 n2 av2 sb2 by (simp_all add: frame_def)
        have b3: "buffer_m (data_m (objs s3 this)) = buf" by (simp add: o3 buf_def)
        have z3: "size_m (objs s3 this) = n" by (simp add: o3 sz)
        have ab3: "buffer_m (data_m (objs s3 this)) \<noteq> buffer_m nd"
          using fr(3) by (simp add: b3 bn)
        have ha3: "heap s3 (buffer_m (data_m (objs s3 this))) =
            Some (map Live (map (left_behind T) (take pos_n xs)) @ map Live (drop pos_n xs) @ [])"
          by (simp add: b3 H3)
        have i3: "pos_n = length (map Live (map (left_behind T) (take pos_n xs)))"
          using np by simp
        have "replicate (nc - Suc pos_n) (Raw :: 'a slot) =
            replicate (n - pos_n) Raw @ replicate (nc - Suc n) Raw"
          using le' nc by (simp flip: replicate_add)
        then have hb3: "heap s3 (buffer_m nd) =
            Some ((map Live (take pos_n xs) @ [Live x]) @
                  replicate (size_m (objs s3 this) - pos_n) Raw @ replicate (nc - Suc n) Raw)"
          using fr(3) by (simp add: bn H3 z3)
        have j3: "pos_n + 1 = length (map Live (take pos_n xs) @ [Live x])"
          using np by simp
        have m3: "size_m (objs s3 this) - pos_n = length (drop pos_n xs)"
          by (simp add: z3 lxs)
        show ?case
        proof (rule post_and_then, rule post_on_throw,
            rule post_weaken [OF MoveOrCopy_spec [OF ab3 ha3 i3 hb3 j3 m3]], goal_cases)
          case (2 e s4)
          then obtain blk evs where e: "e = ElemThrow" "can_raise T" and f4: "frame s3 s4"
            and h4: "heap s4 = (heap s3)(buffer_m (data_m (objs s3 this)) := Some blk)"
            and lb: "length blk = n"
            and cb: "\<not> uses_move T \<longrightarrow>
                blk = map Live (map (left_behind T) (take pos_n xs)) @ map Live (drop pos_n xs)"
            and l4: "log s4 = log s3 @ evs" and ev: "constructed evs = destroyed evs"
            using le' lxs by auto
          have cb': "\<not> uses_move T \<longrightarrow> blk = map Live xs"
            using cb by (auto simp: left_behind_copy simp flip: map_append)
          have H4: "heap s4 = (heap s)(na := Some (map Live (take pos_n xs) @ Live x # replicate (nc - Suc pos_n) Raw),
                                       buf := Some blk)"
            by (simp add: h4 b3 H3)
          have h4n: "heap s4 (buffer_m nd) =
              Some (map Live (take pos_n xs) @ Live x # replicate (nc - Suc pos_n) Raw)"
            using fr(3) by (simp add: bn H4)
          show ?case
          proof (rule post_and_then, rule post_weaken [OF destroy_at_mid [OF h4n ip3]], goal_cases)
            case (1 u s5)
            then have H5: "heap s5 = (heap s)(na := Some (map Live (take pos_n xs) @ Raw # replicate (nc - Suc pos_n) Raw),
                                       buf := Some blk)"
              and l5: "log s5 = log s4 @ [Dtor x]" and f5: "frame s4 s5"
              using fr(3) by (simp_all add: bn H4 fun_upd_first)
            have h5n: "heap s5 (buffer_m nd) =
                Some ([] @ map Live (take pos_n xs) @ (Raw # replicate (nc - Suc pos_n) Raw))"
              using fr(3) by (simp add: bn H5)
            show ?case
            proof (rule post_weaken [OF destroy_n_spec [OF h5n i0 np]], goal_cases)
              case (1 u s6)
              then have H6: "heap s6 = (heap s)(na := Some (replicate pos_n Raw @ Raw # replicate (nc - Suc pos_n) Raw),
                                       buf := Some blk)"
                and l6: "log s6 = log s @ (init_event a # map (transfer_event T) (take pos_n xs) @ evs @
                            Dtor x # map Dtor (take pos_n xs))"
                and f6: "frame s5 s6"
                using fr(3) np by (simp_all add: bn H5 l5 l4 l3 fun_upd_first)
              have r6: "objs s6 = objs s" "next_addr s6 = Suc na" "avail s6 = avail s - nc"
                "slot_bytes s6 = slot_bytes s"
                using f6 f5 f4 o3 n3 av3 sb3 by (simp_all add: frame_def)
              show ?case
                by (rule released [OF H6 _ lb cb' r6 l6 _ e]) (use pn in \<open>simp_all add: ev x_def\<close>)
            next
              case (2 e' s6)
              then show ?case by simp
            qed
          next
            case (2 e' s5)
            then show ?case by simp
          qed
        next
          case (1 u s4)
          have tk: "map f (take pos_n xs) @ map f (drop pos_n xs) = map f xs" for f :: "'a \<Rightarrow> 'b"
            by (simp flip: map_append)
          from 1 have H4: "heap s4 = (heap s)(na := Some (map Live (take pos_n xs) @ Live x #
                                                   map Live (drop pos_n xs) @ replicate (nc - Suc n) Raw),
                                       buf := Some (map Live (map (left_behind T) xs)))"
            and l4: "log s4 = log s @ init_event a # map (transfer_event T) xs"
            and f4: "frame s3 s4"
            using fr(3) by (simp_all add: bn b3 H3 l3 fun_upd_both tk)
          from 1 have p4: "\<not> uses_move T \<longrightarrow>
              (\<forall>j<length (drop pos_n xs).
                 \<not> raises T (log s3 @ map CopyCtor (take j (drop pos_n xs))) (CopyCtor (drop pos_n xs ! j)))"
            by blast
          have q4: "\<not> raises T (log s @ init_event a # map CopyCtor (take pos_n xs) @
                map CopyCtor (take j (drop pos_n xs))) (CopyCtor (drop pos_n xs ! j))"
            if c: "\<not> uses_move T" and j: "j < n - pos_n" for j
          proof -
            have "j < length (drop pos_n xs)" using j lxs by simp
            with p4 c have "\<not> raises T (log s3 @ map CopyCtor (take j (drop pos_n xs)))
                (CopyCtor (drop pos_n xs ! j))"
              by blast
            then show ?thesis by (simp add: l3 transfer_event_copy [OF c])
          qed
          have nr4: "\<not> raises T (log s @ init_event a # map CopyCtor (take k xs)) (CopyCtor (xs ! k))"
            if c: "\<not> uses_move T" and k: "k < n" for k
          proof (cases "k < pos_n")
            case True
            then show ?thesis by (rule nr3 [OF c])
          next
            case False
            then have kk: "k = pos_n + (k - pos_n)" "k - pos_n < n - pos_n" using k by simp_all
            have "take k xs = take pos_n xs @ take (k - pos_n) (drop pos_n xs)"
              by (subst kk(1)) (simp only: take_add)
            moreover have "xs ! k = drop pos_n xs ! (k - pos_n)"
              using le' lxs kk by simp
            ultimately show ?thesis using q4 [OF c kk(2)] by simp
          qed
          have o4: "objs s4 = objs s" and n4: "next_addr s4 = Suc na" and av4: "avail s4 = avail s - nc"
            and sb4: "slot_bytes s4 = slot_bytes s"
            using f4 o3 n3 av3 sb3 by (simp_all add: frame_def)
          have b4: "buffer_m (data_m (objs s4 this)) = buf" by (simp add: o4 buf_def)
          have ha4: "heap s4 (buffer_m (data_m (objs s4 this))) =
              Some ([] @ map Live (map (left_behind T) xs) @ [])"
            by (simp add: b4 H4)
          have m4: "size_m (objs s4 this) = length (map (left_behind T) xs)"
            by (simp add: o4 sz lxs)
          show ?case
          proof (rule post_and_then, rule post_weaken [OF destroy_n_spec [OF ha4 i0 m4]], goal_cases)
            case (2 e' s5)
            then show ?case by simp
          next
            case (1 u s5)
            then have H5: "heap s5 = (heap s)(na := Some (map Live (take pos_n xs) @ Live x #
                                                   map Live (drop pos_n xs) @ replicate (nc - Suc n) Raw),
                                       buf := Some (replicate n Raw))"
              and l5: "log s5 = log s @ init_event a # map (transfer_event T) xs @
                          map Dtor (map (left_behind T) xs)"
              and f5: "frame s4 s5"
              by (simp_all add: b4 H4 l4 lxs)
            have o5: "objs s5 = objs s" and n5: "next_addr s5 = Suc na"
              and av5: "avail s5 = avail s - nc" and sb5: "slot_bytes s5 = slot_bytes s"
              using f5 o4 n4 av4 sb4 by (simp_all add: frame_def)
            let ?old = "nd\<lparr>buffer_m := buffer_m (data_m (objs s5 this)),
                           capacity_m := capacity_m (data_m (objs s5 this))\<rparr>"
            let ?s6 = "set_data this ((data_m (objs s5 this))
                         \<lparr>buffer_m := buffer_m nd, capacity_m := capacity_m nd\<rparr>) s5"
            have bo: "buffer_m ?old = buf" by (simp add: o5 buf_def)
            have pre6: "buffer_m ?old = 0 \<or> heap ?s6 (buffer_m ?old) \<noteq> None"
              by (simp add: o5 H5 buf_def [symmetric])
            show ?case
              unfolding RawMemory_Swap_def prod.case post_Ok
            proof (rule post_and_then, rule post_weaken [OF RawMemory_delete_block [OF pre6]], goal_cases)
              case (2 e' s7)
              then show ?case by simp
            next
              case (1 u s7)
              then have h7: "heap s7 = (if buf = 0 then heap s5 else (heap s5)(buf := None))"
                and n7: "next_addr s7 = Suc na" and l7: "log s7 = log s5"
                and o7: "objs s7 = (objs s)(this := (objs s this)\<lparr>data_m := \<lparr>buffer_m = na, capacity_m = nc\<rparr>\<rparr>)"
                by (simp_all add: n5 o5 nd buf_def)
              from 1 have a7: "avail s7 = (if buf = 0 then avail s5 else avail s5 + n)"
                by (simp add: o5 H5 buf_def [symmetric])
              have av7: "avail s7 + nc = avail s + n"
                using av1(2) buf0 by (cases "buf = 0") (simp_all add: a7 av5)
              have hna: "heap s7 na = Some (map Live (take pos_n xs) @ Live x #
                                                   map Live (drop pos_n xs) @ replicate (nc - Suc n) Raw)"
                using fr(3) by (simp add: h7 H5)
              from 1 have sb7: "slot_bytes s7 = slot_bytes s" by (simp add: sb5)
              have hh: "heap s7 = (heap s)(na := Some (map Live (take pos_n xs) @ Live x #
                                                   map Live (drop pos_n xs) @ replicate (nc - Suc n) Raw),
                                       buf := (if buf = 0 then Some [] else None))"
                using buf0 by (cases "buf = 0") (simp_all add: h7 H5)
              have m7: "mem_ok s7"
                using le' nc av7
                by (intro mem_ok_moved [OF mem hb, folded na_def, OF hh]) (simp_all add: n7 sb7 lxs)
              have av: "avail s7 + (if size_m (objs s this) = 0 then Suc 0
                                    else size_m (objs s this) * 2) = avail s + size_m (objs s this)"
                using av7 by (simp add: nc_def sz split: if_splits)
              have rest: "heap s7 (next_addr s) =
                  Some (map Live (take pos_n (elems s this) @ init_value a # drop pos_n (elems s this)) @
                        replicate ((if size_m (objs s this) = 0 then Suc 0
                                    else size_m (objs s this) * 2) - Suc (size_m (objs s this))) Raw)"
                using hna by (simp add: xs_def n_def nc_def na_def x_def sz [unfolded n_def xs_def])
              have nrs: "\<not> uses_move T \<longrightarrow>
                  (\<forall>k<size_m (objs s this).
                     \<not> raises T (log s @ init_event a # map CopyCtor (take k (elems s this)))
                                (CopyCtor (elems s this ! k)))"
                using nr4 by (simp add: sz xs_def)
              show ?case
                using m7 nr2 nrs
                by (simp only: post_Ok av rest simp_thms)
                  (simp add: o7 l7 l5 xs_def n_def nc_def na_def x_def Size_def
                    vec_okD(2) [OF ok, unfolded Size_def])
            qed
          qed
        qed
      qed
    qed
  qed
qed

lemma EmplaceBack_spec:
  assumes mem: "mem_ok s" and ok: "vec_ok s this"
  shows "post (EmplaceBack T this a s)
     (\<lambda>p s'. p = (buffer_m (data_m (objs s' this)), Size s this)
        \<and> slot_at s' p = Some (Live (init_value a))
        \<and> Size s' this = Size s this + 1
        \<and> elems s' this = elems s this @ [init_value a]
        \<and> vec_ok s' this \<and> mem_ok s'
        \<and> Capacity s' this =
            (if Size s this + 1 \<le> Capacity s this then Capacity s this
             else if Size s this = 0 then 1 else Size s this * 2)
        \<and> log s' = log s @
            (if Size s this + 1 \<le> Capacity s this then [init_event a]
             else init_event a # map (transfer_event T) (elems s this) @
                  map Dtor (map (left_behind T) (elems s this)))
        \<and> avail s' + Capacity s' this = avail s + Capacity s this
        \<and> \<not> raises T (log s) (init_event a)
        \<and> (\<not> Size s this + 1 \<le> Capacity s this \<and> \<not> uses_move T \<longrightarrow>
             (\<forall>k<Size s this. \<not> raises T (log s @ init_event a # map CopyCtor (take k (elems s this)))
                                    (CopyCtor (elems s this ! k)))))
     (\<lambda>e s'. (e = BadAlloc \<and> s' = s \<and> Capacity s this < Size s this + 1
           \<and> avail s < (if Size s this = 0 then Suc 0 else Size s this * 2)) \<or>
        (e = ElemThrow \<and> can_raise T \<and> objs s' = objs s \<and> mem_ok s' \<and> avail s' = avail s
           \<and> (\<not> uses_move T \<longrightarrow> heap s' = heap s)
           \<and> (\<exists>evs. log s' = log s @ evs \<and> mset (constructed evs) = mset (destroyed evs))))"
proof -
  define xs where "xs = elems s this"
  define n where "n = length xs"
  define k where "k = Capacity s this - Size s this"
  define buf where "buf = buffer_m (data_m (objs s this))"
  define x where "x = init_value a"
  have sz: "size_m (objs s this) = n" and cp: "capacity_m (data_m (objs s this)) = n + k"
    and hb: "heap s buf = Some (map Live xs @ replicate k Raw)"
    using ok vec_okD [of s this] by (simp_all add: xs_def n_def k_def buf_def Size_def Capacity_def)
  have S: "Size s this = n" "Capacity s this = n + k" by (simp_all add: Size_def Capacity_def sz cp)
  \<comment> \<open>the state after \<open>++size_\<close>, for either way of placing the element\<close>
  have fin: "post (case ptr_minus (vend (set_size this (Size s1 this + 1) s1) this) 1 of
                 None \<Rightarrow> Undefined
               | Some p \<Rightarrow> Ok p (set_size this (Size s1 this + 1) s1))
     (\<lambda>p s'. p = (buffer_m (data_m (objs s' this)), n)
        \<and> slot_at s' p = Some (Live x)
        \<and> Size s' this = n + 1
        \<and> elems s' this = xs @ [x]
        \<and> vec_ok s' this
        \<and> Capacity s' this = capacity_m (data_m (objs s1 this))
        \<and> log s' = log s1 \<and> heap s' = heap s1 \<and> next_addr s' = next_addr s1
        \<and> avail s' = avail s1 \<and> slot_bytes s' = slot_bytes s1)
     Q"
    if "size_m (objs s1 this) = n"
      "heap s1 (buffer_m (data_m (objs s1 this))) = Some (map Live (xs @ [x]) @ replicate j Raw)"
      "capacity_m (data_m (objs s1 this)) = Suc n + j"
    for s1 :: "'a state" and j Q
  proof -
    let ?s' = "set_size this (Suc n) s1"
    let ?b = "buffer_m (data_m (objs s1 this))"
    have lx: "length xs = n" by (simp add: n_def)
    have hb': "heap ?s' (buffer_m (data_m (objs ?s' this))) = Some (map Live (xs @ [x]) @ replicate j Raw)"
      using that(2) by simp
    have v: "vec_ok ?s' this" "elems ?s' this = xs @ [x]"
      by (rule vec_okI [OF hb']; simp add: lx that(3))+
    have "heap ?s' ?b = Some (map Live xs @ Live x # replicate j Raw)"
      using that(2) by simp
    from slot_at_mid [OF this, of n] have sl: "slot_at ?s' (?b, n) = Some (Live x)"
      by (simp add: lx)
    show ?thesis
      using v sl by (simp add: that(1) Size_def Capacity_def ptr_minus_def vend_def)
  qed
  show ?thesis
  proof (cases "Size s this + 1 \<le> Capacity s this")
    case True
    then obtain j where j: "k = Suc j" using S by (cases k) simp_all
    have he: "heap s (buffer_m (data_m (objs s this))) = Some (map Live xs @ Raw # replicate j Raw)"
      using hb j by (simp add: buf_def)
    have ie: "size_m (objs s this) = length (map Live xs)" by (simp add: sz n_def)
    show ?thesis
      apply (simp only: EmplaceBack_def PlaceBackWithoutRealloc_def True if_True)
      apply (simp only: vend_def)
    proof (rule post_and_then, rule post_weaken [OF construct_at_mid [OF he ie]], goal_cases)
      case (2 e s1)
      then have "can_raise T" by (auto intro: can_raiseI)
      with 2 mem show ?case by simp
    next
      case (1 u s1)
      then have h1: "heap s1 = (heap s)(buf := Some (map Live xs @ Live x # replicate j Raw))"
        and l1: "log s1 = log s @ [init_event a]" and f1: "frame s s1"
        and nr1: "\<not> raises T (log s) (init_event a)"
        by (simp_all add: buf_def x_def)
      have o1: "objs s1 = objs s" "next_addr s1 = next_addr s" "avail s1 = avail s"
        "slot_bytes s1 = slot_bytes s"
        using f1 by (simp_all add: frame_def)
      have p1: "size_m (objs s1 this) = n"
        "heap s1 (buffer_m (data_m (objs s1 this))) = Some (map Live (xs @ [x]) @ replicate j Raw)"
        "capacity_m (data_m (objs s1 this)) = Suc n + j"
        using j by (simp_all add: o1 sz cp h1 buf_def)
      have m1: "mem_ok s'"
        if "heap s' = heap s1" "next_addr s' = next_addr s1" "avail s' = avail s1"
          "slot_bytes s' = slot_bytes s1" for s' :: "'a state"
      proof -
        have hs': "heap s' = (heap s)(buf := Some (map Live xs @ Live x # replicate j Raw))"
          by (simp add: that h1)
        show ?thesis
          by (rule mem_ok_in_place [OF mem hb hs']) (simp_all add: that o1 j)
      qed
      show ?case
        by (rule post_weaken [OF fin [OF p1, unfolded vend_def]])
          (use True nr1 in \<open>auto simp: S l1 o1 cp j xs_def x_def intro: m1\<close>)
    qed
  next
    case False
    then have full: "Capacity s this < Size s this + 1" by simp
    have k0: "k = 0" using False S by simp
    have pv: "vend s this = ptr_add (vbegin s this) (Size s this)"
      by (simp add: vend_def vbegin_def ptr_add_def Size_def)
    show ?thesis
      apply (simp only: EmplaceBack_def False if_False)
    proof (rule post_and_then, rule post_and_then,
        rule post_weaken [OF PlaceWithRealloc_spec [OF mem ok full pv order_refl]], goal_cases)
      case (2 e s1)
      then show ?case using full by auto
    next
      case (1 p s1)
      let ?nc = "if n = 0 then Suc 0 else n * 2"
      from 1 have o1: "objs s1 = (objs s)(this := (objs s this)
             \<lparr>data_m := \<lparr>buffer_m = next_addr s, capacity_m = ?nc\<rparr>\<rparr>)"
        and h1: "heap s1 (next_addr s) = Some (map Live (xs @ [x]) @ replicate (?nc - Suc n) Raw)"
        and m1: "mem_ok s1"
        and l1: "log s1 = log s @ init_event a # map (transfer_event T) xs @
             map Dtor (map (left_behind T) xs)"
        by (simp_all add: S xs_def x_def n_def)
      from 1 have a1: "avail s1 + ?nc = avail s + n"
        by (simp add: S xs_def x_def n_def split: if_splits)
      from 1 have nr1: "\<not> raises T (log s) (init_event a)"
        and nrs: "\<not> uses_move T \<longrightarrow>
             (\<forall>k<n. \<not> raises T (log s @ init_event a # map CopyCtor (take k xs)) (CopyCtor (xs ! k)))"
        by (simp_all add: S xs_def)
      have p1: "size_m (objs s1 this) = n"
        "heap s1 (buffer_m (data_m (objs s1 this))) = Some (map Live (xs @ [x]) @ replicate (?nc - Suc n) Raw)"
        "capacity_m (data_m (objs s1 this)) = Suc n + (?nc - Suc n)"
        using h1 by (simp_all add: o1 sz)
      have m1': "mem_ok s'"
        if "heap s' = heap s1" "next_addr s' = next_addr s1" "avail s' = avail s1"
          "slot_bytes s' = slot_bytes s1" for s' :: "'a state"
        by (rule mem_ok_cong [OF m1 that])
      show ?case
        unfolding post_Ok
        by (rule post_weaken [OF fin [OF p1]])
          (use False a1 k0 nr1 nrs in \<open>auto simp: S l1 o1 xs_def x_def intro: m1'\<close>)
    qed
  qed
qed

subsection \<open>\<open>Reserve\<close>\<close>



subsection \<open>\<open>Emplace\<close> in the middle, without reallocation\<close>

lemma construct_local_spec:
  "post (construct_local T a s)
     (\<lambda>v s'. v = init_value a \<and> heap s' = heap s \<and> log s' = log s @ [init_event a] \<and> frame s s')
     (\<lambda>e s'. e = ElemThrow \<and> s' = s \<and> can_raise T)"
  by (auto simp: construct_local_def frame_def intro: can_raiseI)

lemma uninitialized_move_n_one:
  assumes "heap s a = Some (pre @ Live v # x # rest)" "p = (a, length pre)" "q = (a, Suc (length pre))"
  shows "post (uninitialized_move_n T p 1 q s)
     (\<lambda>u s'. heap s' = (heap s)(a := Some (pre @ Live (moved_from T v) # Live v # rest))
        \<and> log s' = log s @ [MoveCtor v] \<and> frame s s')
     (\<lambda>e s'. e = ElemThrow \<and> s' = s \<and> can_raise T)"
proof -
  have "uninitialized_move_n T p 1 q s = move_construct T (a, length pre) (a, Suc (length pre)) s"
    by (simp add: uninitialized_move_n_def ptr_add_def assms(2,3) split: result.splits)
  then show ?thesis
    using move_construct_next [OF assms(1) refl, of T] by simp
qed

lemma move_backward_spec:
  assumes "heap s a = Some (pre @ map Live vs @ Live y # rest)" "p = (a, length pre)"
    "q = (a, length pre + length vs)" "r = (a, Suc (length pre + length vs))"
  shows "post (move_backward T p q r s)
       (\<lambda>u s'. heap s' = (heap s)(a := Some (pre @ Live (hd (map (moved_from T) vs @ [y])) #
                                     map Live vs @ rest))
          \<and> log s' = log s @ map MoveAssign (rev vs) \<and> frame s s')
       (\<lambda>e s'. e = ElemThrow \<and> can_raise T)"
  using move_backward_loop_block [OF assms(1), of T]
  by (simp add: move_backward_def ptr_diff_def assms(2-))

lemma split_at_pos:
  assumes "pos_n < length xs"
  shows "xs = take pos_n xs @ drop pos_n (butlast xs) @ [last xs]"
    and "drop pos_n xs = drop pos_n (butlast xs) @ [last xs]"
    and "length (drop pos_n (butlast xs)) = length xs - Suc pos_n"
proof -
  have ne: "xs \<noteq> []" using assms by auto
  then have x: "xs = butlast xs @ [last xs]" by simp
  have "pos_n \<le> length (butlast xs)" using assms by simp
  then have "drop pos_n (butlast xs @ [last xs]) = drop pos_n (butlast xs) @ [last xs]"
    by simp
  with x show d: "drop pos_n xs = drop pos_n (butlast xs) @ [last xs]" by simp
  have "xs = take pos_n xs @ drop pos_n xs" by simp
  with d show "xs = take pos_n xs @ drop pos_n (butlast xs) @ [last xs]" by simp
  show "length (drop pos_n (butlast xs)) = length xs - Suc pos_n" by simp
qed

lemma Emplace_mid_spec:
  assumes ok: "vec_ok s this" and room: "Size s this < Capacity s this"
    and pos: "pos = ptr_add (vbegin s this) pos_n" and lt: "pos_n < Size s this"
  shows "post (Emplace T this pos a s)
     (\<lambda>p s'. p = (buffer_m (data_m (objs s this)), pos_n)
        \<and> objs s' = (objs s)(this := (objs s this)\<lparr>size_m := Suc (Size s this)\<rparr>)
        \<and> heap s' = (heap s)(buffer_m (data_m (objs s this)) :=
             Some (map Live (take pos_n (elems s this) @ init_value a # drop pos_n (elems s this)) @
                   replicate (Capacity s this - Suc (Size s this)) Raw))
        \<and> next_addr s' = next_addr s \<and> avail s' = avail s \<and> slot_bytes s' = slot_bytes s
        \<and> log s' = log s @ init_event a # MoveCtor (last (elems s this)) #
             map MoveAssign (rev (drop pos_n (butlast (elems s this)))) @
             [MoveAssign (init_value a), Dtor (moved_from T (init_value a))])
     (\<lambda>e s'. e = ElemThrow \<and> can_raise T)"
proof -
  define xs where "xs = elems s this"
  define n where "n = length xs"
  define k where "k = Capacity s this - Size s this"
  define buf where "buf = buffer_m (data_m (objs s this))"
  define x where "x = init_value a"
  define A where "A = take pos_n xs"
  define B where "B = drop pos_n (butlast xs)"
  define l where "l = last xs"
  have sz: "size_m (objs s this) = n" and cp: "capacity_m (data_m (objs s this)) = n + k"
    and hb: "heap s buf = Some (map Live xs @ replicate k Raw)"
    using ok vec_okD [of s this] by (simp_all add: xs_def n_def k_def buf_def Size_def Capacity_def)
  have S: "Size s this = n" "Capacity s this = n + k" by (simp_all add: Size_def Capacity_def sz cp)
  obtain j where j: "k = Suc j" using room S by (cases k) simp_all
  have pn: "pos_n < length xs" using lt S by (simp add: n_def)
  note sp = split_at_pos [OF pn, folded A_def B_def l_def]
  have lA: "length A = pos_n" using pn by (simp add: A_def)
  have lB: "length B = n - Suc pos_n" using sp(3) by (simp add: n_def)
  have nAB: "n = Suc (pos_n + length B)" using pn lB by (simp add: n_def)
  have pd: "ptr_diff pos (vbegin s this) = Some pos_n"
    by (simp add: pos ptr_diff_def ptr_add_def vbegin_def)
  have ne: "(pos \<noteq> vend s this) = True"
    using lt by (simp add: pos ptr_add_def vbegin_def vend_def Size_def)
  have "map Live xs = map Live (A @ B @ [l])" using sp(1) by simp
  then have hs: "heap s buf = Some ((map Live A @ map Live B) @ Live l # Raw # replicate j Raw)"
    using hb j by simp
  show ?thesis
    apply (simp only: Emplace_def pd option.case room if_True ne)
    apply (simp only: vend_def vbegin_def ptr_add_def fst_conv snd_conv add_0 Size_def)
  proof (rule post_and_then, rule post_and_then, rule post_weaken [OF construct_local_spec], goal_cases)
    case (2 e s1)
    then show ?case by simp
  next
    case (1 temp s1)
    then have t: "temp = x" and h1: "heap s1 = heap s" and l1: "log s1 = log s @ [init_event a]"
      and f1: "frame s s1"
      by (simp_all add: x_def)
    have o1: "objs s1 = objs s" using f1 by (simp add: frame_def)
    have pm: "ptr_minus (buffer_m (data_m (objs s1 this)), size_m (objs s1 this)) 1 =
        Some (buf, length (map Live A @ map Live B))"
      using nAB by (simp add: ptr_minus_def o1 sz buf_def lA)
    have hs1: "heap s1 buf = Some ((map Live A @ map Live B) @ Live l # Raw # replicate j Raw)"
      using hs by (simp add: h1)
    have q1: "(buffer_m (data_m (objs s1 this)), size_m (objs s1 this)) =
        (buf, Suc (length (map Live A @ map Live B)))"
      using nAB by (simp add: o1 sz buf_def lA)
    show ?case
      apply (simp only: pm option.case)
    proof (rule post_and_then, rule post_on_throw, rule post_and_then,
        rule post_weaken [OF uninitialized_move_n_one [OF hs1 refl q1]], goal_cases)
      case (2 e s2)
      then show ?case by (simp add: destroy_local_def)
    next
      case (1 u s2)
      then have H2: "heap s2 = (heap s)(buf := Some (map Live A @ map Live B @
                        Live (moved_from T l) # Live l # replicate j Raw))"
        and l2: "log s2 = log s @ [init_event a, MoveCtor l]" and f2: "frame s1 s2"
        by (simp_all add: h1 l1)
      have o2: "objs s2 = objs s" using f2 o1 by (simp add: frame_def)
      have hs2: "heap s2 buf = Some (map Live A @ map Live B @ Live (moved_from T l) #
          (Live l # replicate j Raw))"
        by (simp add: H2)
      have p2: "(buffer_m (data_m (objs s2 this)), pos_n) = (buf, length (map Live A))"
        by (simp add: o2 buf_def lA)
      have q2: "(buf, length (map Live A @ map Live B)) = (buf, length (map Live A) + length B)"
        by simp
      have r2: "(buffer_m (data_m (objs s2 this)), size_m (objs s2 this)) =
          (buf, Suc (length (map Live A) + length B))"
        using nAB by (simp add: o2 sz buf_def lA)
      show ?case
      proof (rule post_and_then, rule post_weaken [OF move_backward_spec [OF hs2 p2 q2 r2]], goal_cases)
        case (2 e s3)
        then show ?case by (simp add: destroy_local_def)
      next
        case (1 u s3)
        then have H3: "heap s3 = (heap s)(buf := Some (map Live A @
                          Live (hd (map (moved_from T) B @ [moved_from T l])) #
                          map Live B @ Live l # replicate j Raw))"
          and l3: "log s3 = log s @ [init_event a, MoveCtor l] @ map MoveAssign (rev B)"
          and f3: "frame s2 s3"
          by (simp_all add: H2 l2)
        have o3: "objs s3 = objs s" using f3 o2 by (simp add: frame_def)
        have hs3: "heap s3 (buffer_m (data_m (objs s3 this))) = Some (map Live A @
                          Live (hd (map (moved_from T) B @ [moved_from T l])) #
                          (map Live B @ Live l # replicate j Raw))"
          by (simp add: o3 H3 buf_def [symmetric])
        have i3: "pos_n = length (map Live A)" by (simp add: lA)
        show ?case
        proof (rule post_weaken [OF assign_at_mid [OF hs3 i3]], goal_cases)
          case (2 e s4)
          then show ?case by (simp add: destroy_local_def)
        next
          case (1 u s4)
          then have H4: "heap s4 = (heap s)(buf := Some (map Live A @ Live x #
                            map Live B @ Live l # replicate j Raw))"
            and l4: "log s4 = log s @ [init_event a, MoveCtor l] @ map MoveAssign (rev B) @
                       [MoveAssign x]"
            and f4: "frame s3 s4"
            by (simp_all add: H3 l3 o3 t buf_def [symmetric])
          have r4: "objs s4 = objs s" "next_addr s4 = next_addr s" "avail s4 = avail s"
            "slot_bytes s4 = slot_bytes s"
            using f4 f3 f2 f1 by (simp_all add: frame_def)
          have e: "elems s this = xs" "take pos_n xs = A" "init_value a = x"
            "buffer_m (data_m (objs s this)) = buf" "last xs = l" "drop pos_n (butlast xs) = B"
            by (simp_all add: xs_def A_def x_def buf_def l_def B_def)
          show ?case
            unfolding destroy_local_def post_Ok e
            using H4 l4 r4 by (simp add: S sz t sp(2) j e(4))
        qed
      qed
    qed
  qed
qed

subsection \<open>\<open>Emplace\<close>\<close>

lemma inserted:
  assumes "heap s' (buffer_m (data_m (objs s' this))) = Some (map Live ys @ replicate j Raw)"
    and "size_m (objs s' this) = length ys"
    and "capacity_m (data_m (objs s' this)) = length ys + j"
    and "i < length ys"
  shows "vec_ok s' this" "elems s' this = ys" "Size s' this = length ys"
    "Capacity s' this = length ys + j"
    "slot_at s' (buffer_m (data_m (objs s' this)), i) = Some (Live (ys ! i))"
proof -
  show "vec_ok s' this" "elems s' this = ys"
    by (rule vec_okI [OF assms(1-3)])+
  show "Size s' this = length ys" "Capacity s' this = length ys + j"
    by (simp_all add: Size_def Capacity_def assms)
  have "map Live ys = map Live (take i ys) @ Live (ys ! i) # map Live (drop (Suc i) ys)"
    using assms(4) by (metis id_take_nth_drop list.simps(9) map_append)
  then have "heap s' (buffer_m (data_m (objs s' this))) =
      Some (map Live (take i ys) @ Live (ys ! i) # (map Live (drop (Suc i) ys) @ replicate j Raw))"
    using assms(1) by simp
  from slot_at_mid [OF this, of i] show
    "slot_at s' (buffer_m (data_m (objs s' this)), i) = Some (Live (ys ! i))"
    using assms(4) by simp
qed

lemma Emplace_spec:
  assumes mem: "mem_ok s" and ok: "vec_ok s this"
    and pos: "pos = ptr_add (vbegin s this) pos_n" and le: "pos_n \<le> Size s this"
  shows "post (Emplace T this pos a s)
     (\<lambda>p s'. p = ptr_add (vbegin s' this) pos_n
        \<and> slot_at s' p = Some (Live (init_value a))
        \<and> Size s' this = Size s this + 1
        \<and> elems s' this = take pos_n (elems s this) @ init_value a # drop pos_n (elems s this)
        \<and> vec_ok s' this \<and> mem_ok s'
        \<and> Capacity s' this =
            (if Size s this < Capacity s this then Capacity s this
             else if Size s this = 0 then 1 else Size s this * 2)
        \<and> (\<not> Size s this < Capacity s this \<longrightarrow>
             log s' = log s @ init_event a # map (transfer_event T) (elems s this) @
                  map Dtor (map (left_behind T) (elems s this)))
        \<and> avail s' + Capacity s' this = avail s + Capacity s this
        \<and> (\<not> Size s this < Capacity s this \<longrightarrow>
             \<not> raises T (log s) (init_event a)
             \<and> (\<not> uses_move T \<longrightarrow>
                  (\<forall>k<Size s this.
                     \<not> raises T (log s @ init_event a # map CopyCtor (take k (elems s this)))
                                (CopyCtor (elems s this ! k))))))
     (\<lambda>e s'. (e = BadAlloc \<and> s' = s \<and> \<not> Size s this < Capacity s this
           \<and> avail s < (if Size s this = 0 then Suc 0 else Size s this * 2)) \<or>
        (e = ElemThrow \<and> can_raise T \<and>
           (\<not> Size s this < Capacity s this \<longrightarrow>
              objs s' = objs s \<and> mem_ok s' \<and> avail s' = avail s
              \<and> (\<not> uses_move T \<longrightarrow> heap s' = heap s)
              \<and> (\<exists>evs. log s' = log s @ evs \<and> mset (constructed evs) = mset (destroyed evs)))))"
proof -
  define xs where "xs = elems s this"
  define n where "n = length xs"
  define k where "k = Capacity s this - Size s this"
  define buf where "buf = buffer_m (data_m (objs s this))"
  define x where "x = init_value a"
  define ys where "ys = take pos_n xs @ x # drop pos_n xs"
  have sz: "size_m (objs s this) = n" and cp: "capacity_m (data_m (objs s this)) = n + k"
    and hb: "heap s buf = Some (map Live xs @ replicate k Raw)"
    using ok vec_okD [of s this] by (simp_all add: xs_def n_def k_def buf_def Size_def Capacity_def)
  have S: "Size s this = n" "Capacity s this = n + k" by (simp_all add: Size_def Capacity_def sz cp)
  have le': "pos_n \<le> n" using le S by simp
  have lys: "length ys = Suc n" using le' by (simp add: ys_def n_def)
  have py: "pos_n < length ys" using le' lys by simp
  have yp: "ys ! pos_n = x" using le' by (simp add: ys_def nth_append n_def)
  have pd: "ptr_diff pos (vbegin s this) = Some pos_n"
    by (simp add: pos ptr_diff_def ptr_add_def vbegin_def)
  have fold: "elems s this = xs" "init_value a = x" "take pos_n xs @ x # drop pos_n xs = ys"
    by (simp_all add: xs_def x_def ys_def)
  show ?thesis
  proof (cases "Size s this < Capacity s this")
    case room: True
    then obtain j where j: "k = Suc j" using S by (cases k) simp_all
    have ll: "length (map Live ys @ replicate j Raw) = length (map Live xs @ replicate k Raw)"
      using j lys by (simp add: n_def)
    show ?thesis
    proof (cases "pos_n < Size s this")
      case True
      show ?thesis
      proof (rule post_weaken [OF Emplace_mid_spec [OF ok room pos True, unfolded fold]], goal_cases)
        case (2 e s')
        then show ?case using room by simp
      next
        case (1 p s')
        then have p: "p = (buf, pos_n)"
          and o': "objs s' = (objs s)(this := (objs s this)\<lparr>size_m := Suc n\<rparr>)"
          and h': "heap s' = (heap s)(buf := Some (map Live ys @ replicate j Raw))"
          and n': "next_addr s' = next_addr s" and a': "avail s' = avail s"
          and sb': "slot_bytes s' = slot_bytes s"
          using j by (simp_all add: buf_def S ys_def x_def)
        have b': "buffer_m (data_m (objs s' this)) = buf" by (simp add: o' buf_def)
        have i1: "heap s' (buffer_m (data_m (objs s' this))) = Some (map Live ys @ replicate j Raw)"
          by (simp add: b' h')
        have i2: "size_m (objs s' this) = length ys" by (simp add: o' lys)
        have i3: "capacity_m (data_m (objs s' this)) = length ys + j"
          using j by (simp add: o' lys cp)
        note ins = inserted [OF i1 i2 i3 py, unfolded yp lys]
        have "mem_ok s'" by (rule mem_ok_in_place [OF mem hb h' ll n' a' sb'])
        with ins show ?case
          using room j by (simp add: p b' a' vbegin_def ptr_add_def S x_def ys_def xs_def)
      qed
    next
      case False
      then have pe: "pos_n = n" using le' S by simp
      have ne: "(pos \<noteq> vend s this) = False"
        by (simp add: pos ptr_add_def vbegin_def vend_def Size_def pe sz)
      have room': "Size s this + 1 \<le> Capacity s this" using room by simp
      have he: "heap s (buffer_m (data_m (objs s this))) = Some (map Live xs @ Raw # replicate j Raw)"
        using hb j by (simp add: buf_def)
      have ie: "size_m (objs s this) = length (map Live xs)" by (simp add: sz n_def)
      have ye: "ys = xs @ [x]" by (simp add: ys_def pe n_def)
      show ?thesis
        apply (simp only: Emplace_def pd option.case room if_True ne if_False
            PlaceBackWithoutRealloc_def room')
        apply (simp only: vend_def)
      proof (rule post_and_then, rule post_weaken [OF construct_at_mid [OF he ie]], goal_cases)
        case (2 e s1)
        then have "can_raise T" by (auto intro: can_raiseI)
        with 2 room show ?case by simp
      next
        case (1 u s1)
        then have h1: "heap s1 = (heap s)(buf := Some (map Live ys @ replicate j Raw))"
          and f1: "frame s s1"
          by (simp_all add: buf_def fold ye)
        have o1: "objs s1 = objs s" "next_addr s1 = next_addr s" "avail s1 = avail s"
          "slot_bytes s1 = slot_bytes s"
          using f1 by (simp_all add: frame_def)
        let ?s' = "set_size this (Size s1 this + 1) s1"
        have b': "buffer_m (data_m (objs ?s' this)) = buf" by (simp add: o1 buf_def)
        have i1: "heap ?s' (buffer_m (data_m (objs ?s' this))) = Some (map Live ys @ replicate j Raw)"
          by (simp add: o1 h1 buf_def [symmetric])
        have i2: "size_m (objs ?s' this) = length ys" by (simp add: o1 lys Size_def sz)
        have i3: "capacity_m (data_m (objs ?s' this)) = length ys + j"
          using j by (simp add: o1 lys cp)
        note ins = inserted [OF i1 i2 i3 py, unfolded yp lys]
        have hs': "heap ?s' = (heap s)(buf := Some (map Live ys @ replicate j Raw))"
          by (simp add: h1)
        have "mem_ok ?s'" by (rule mem_ok_in_place [OF mem hb hs' ll]) (simp_all add: o1)
        with ins show ?case
          unfolding post_Ok
          using room j by (simp add: b' o1(3) vbegin_def ptr_add_def S x_def ys_def xs_def)
      qed
    qed
  next
    case False
    then have full: "Capacity s this < Size s this + 1" by simp
    have nr: "(Size s this < Capacity s this) = False" using False by simp
    show ?thesis
      apply (simp only: Emplace_def pd option.case nr if_False)
    proof (rule post_and_then, rule post_and_then,
        rule post_weaken [OF PlaceWithRealloc_spec [OF mem ok full refl le]], goal_cases)
      case (2 e s1)
      then show ?case using False by auto
    next
      case (1 p s1)
      let ?nc = "if n = 0 then Suc 0 else n * 2"
      from 1 have o1: "objs s1 = (objs s)(this := (objs s this)
             \<lparr>data_m := \<lparr>buffer_m = next_addr s, capacity_m = ?nc\<rparr>\<rparr>)"
        and h1: "heap s1 (next_addr s) = Some (map Live ys @ replicate (?nc - Suc n) Raw)"
        and m1: "mem_ok s1"
        and l1: "log s1 = log s @ init_event a # map (transfer_event T) xs @
             map Dtor (map (left_behind T) xs)"
        by (simp_all add: S fold)
      from 1 have a1: "avail s1 + ?nc = avail s + n"
        by (simp add: S fold split: if_splits)
      from 1 have nr1: "\<not> raises T (log s) (init_event a)"
        and nrs: "\<not> uses_move T \<longrightarrow>
             (\<forall>k<n. \<not> raises T (log s @ init_event a # map CopyCtor (take k xs)) (CopyCtor (xs ! k)))"
        by (simp_all add: S fold)
      let ?s' = "set_size this (Size s1 this + 1) s1"
      have b': "buffer_m (data_m (objs ?s' this)) = next_addr s" by (simp add: o1)
      have i1: "heap ?s' (buffer_m (data_m (objs ?s' this))) =
          Some (map Live ys @ replicate (?nc - Suc n) Raw)"
        using h1 by (simp add: o1)
      have i2: "size_m (objs ?s' this) = length ys" by (simp add: o1 lys Size_def sz)
      have i3: "capacity_m (data_m (objs ?s' this)) = length ys + (?nc - Suc n)"
        by (simp add: o1 lys)
      note ins = inserted [OF i1 i2 i3 py, unfolded yp lys]
      have "mem_ok ?s'" by (rule mem_ok_cong [OF m1]) simp_all
      with ins show ?case
        unfolding post_Ok
        using False a1 nr1 nrs by (simp add: b' vbegin_def ptr_add_def S l1 x_def ys_def xs_def)
    qed
  qed
qed

subsection \<open>\<open>Emplace\<close> and \<open>Insert\<close>: the claim\<close>

text \<open>
  Claim C6. For a vector that satisfies the class invariant and a position
  \<open>pos = begin() + pos_n\<close> with \<open>pos_n \<le> size\<close>, \<open>Emplace(pos, args...)\<close>,
  \<open>Insert(pos, const T&)\<close> and \<open>Insert(pos, T&&)\<close> are defined, and they return
  normally when no operation of the element type throws and, if the vector is
  full, the allocator has room for the new block. When they return, the size is
  one more, the new element is at index \<open>pos_n\<close>, the elements before \<open>pos_n\<close>
  are where they were, the elements formerly at \<open>[pos_n, size)\<close> are one index
  further, and the value returned is \<open>begin() + pos_n\<close> of the vector as it is
  now, which points to the new element.
\<close>

theorem Emplace_inserts_at_pos:
  assumes "mem_ok s" and "vec_ok s this" and "pos_n \<le> Size s this"
    and "pos = ptr_add (vbegin s this) pos_n"
    and "r = Emplace T this pos a s \<or> (a = CopyOf v \<and> r = Insert T this pos v s)
         \<or> (a = MoveOf v \<and> r = Insert_rvalue T this pos v s)"
  shows "r \<noteq> Undefined
     \<and> (\<not> can_raise T \<and> (Size s this < Capacity s this
            \<or> (if Size s this = 0 then 1 else Size s this * 2) \<le> avail s)
          \<longrightarrow> (\<exists>p s'. r = Ok p s'))
     \<and> (\<forall>p s'. r = Ok p s' \<longrightarrow>
          Size s' this = Size s this + 1
          \<and> p = ptr_add (vbegin s' this) pos_n
          \<and> slot_at s' p = Some (Live (init_value a))
          \<and> elems s' this = take pos_n (elems s this) @ init_value a # drop pos_n (elems s this)
          \<and> (\<forall>i<pos_n. elems s' this ! i = elems s this ! i)
          \<and> elems s' this ! pos_n = init_value a
          \<and> (\<forall>i. pos_n \<le> i \<and> i < Size s this \<longrightarrow> elems s' this ! Suc i = elems s this ! i)
          \<and> vec_ok s' this \<and> mem_ok s')"
proof -
  have r: "r = Emplace T this pos a s"
    using assms(5) by (auto simp: Insert_def Insert_rvalue_def)
  note sp = Emplace_spec [OF assms(1,2,4,3), of T a, folded r]
  have len: "length (elems s this) = Size s this"
    using assms(2) vec_okD [of s this] by simp
  have d: "r \<noteq> Undefined"
    using sp by auto
  have t: "\<not> can_raise T \<and> (Size s this < Capacity s this
            \<or> (if Size s this = 0 then 1 else Size s this * 2) \<le> avail s)
          \<longrightarrow> (\<exists>p s'. r = Ok p s')"
    using sp by (cases r) (auto split: if_splits)
  have n1: "(take pos_n xs @ x # drop pos_n xs) ! i = xs ! i" if "i < pos_n" "pos_n \<le> length xs"
    for xs :: "'a list" and x i
    using that by (simp add: nth_append)
  have n2: "(take pos_n xs @ x # drop pos_n xs) ! pos_n = x" if "pos_n \<le> length xs"
    for xs :: "'a list" and x
    using that by (simp add: nth_append)
  have n3: "(take pos_n xs @ x # drop pos_n xs) ! Suc i = xs ! i"
    if "pos_n \<le> i" "i < length xs" for xs :: "'a list" and x i
    using that by (simp add: nth_append Suc_diff_le)
  have k: "Size s' this = Size s this + 1
          \<and> p = ptr_add (vbegin s' this) pos_n
          \<and> slot_at s' p = Some (Live (init_value a))
          \<and> elems s' this = take pos_n (elems s this) @ init_value a # drop pos_n (elems s this)
          \<and> (\<forall>i<pos_n. elems s' this ! i = elems s this ! i)
          \<and> elems s' this ! pos_n = init_value a
          \<and> (\<forall>i. pos_n \<le> i \<and> i < Size s this \<longrightarrow> elems s' this ! Suc i = elems s this ! i)
          \<and> vec_ok s' this \<and> mem_ok s'"
    if ok: "r = Ok p s'" for p s'
  proof -
    from sp ok have e: "elems s' this = take pos_n (elems s this) @ init_value a # drop pos_n (elems s this)"
      and o: "Size s' this = Size s this + 1" "p = ptr_add (vbegin s' this) pos_n"
        "slot_at s' p = Some (Live (init_value a))" "vec_ok s' this" "mem_ok s'"
      by auto
    show ?thesis
      using o assms(3) by (simp add: e n1 n2 n3 len)
  qed
  show ?thesis
    by (rule conjI, rule d, rule conjI, rule t, intro allI impI, erule k)
qed

theorem Emplace_inserts_at_pos_witness:
  "mem_ok example_two \<and> vec_ok example_two 2 \<and> 2 \<le> Size example_two 2
   \<and> \<not> can_raise example_int \<and> Size example_two 2 < Capacity example_two 2
   \<and> (\<exists>p s'. Insert example_int 2 (3, 2) 42 example_two = Ok p s'
         \<and> elems s' 2 = [7, 8, 42, 9, 5, 6] \<and> Size s' 2 = 6
         \<and> p = ptr_add (vbegin s' 2) 2 \<and> slot_at s' p = Some (Live 42))"
proof -
  have h: "mem_ok example_two" "vec_ok example_two 2" "2 \<le> Size example_two 2"
    "(3, 2) = ptr_add (vbegin example_two 2) 2"
    "Insert example_int 2 (3, 2) 42 example_two = Emplace example_int 2 (3, 2) (CopyOf 42) example_two
     \<or> (CopyOf 42 = CopyOf (42 :: int)
         \<and> Insert example_int 2 (3, 2) 42 example_two = Insert example_int 2 (3, 2) 42 example_two)
     \<or> (CopyOf 42 = MoveOf (42 :: int)
         \<and> Insert example_int 2 (3, 2) 42 example_two = Insert_rvalue example_int 2 (3, 2) 42 example_two)"
    by (simp_all add: example_two_ok)
      (simp_all add: Size_def example_two_def ptr_add_def vbegin_def)
  have v: "Size example_two 2 = 5" "Capacity example_two 2 = 8"
    by (simp_all add: Size_def Capacity_def example_two_def)
  have c: "Size example_two 2 < Capacity example_two 2" by (simp add: v)
  note e = Emplace_inserts_at_pos [OF h]
  from e example_int_never_raises c obtain p s' where
    ok: "Insert example_int 2 (3, 2) 42 example_two = Ok p s'"
    by blast
  from e ok have
    "elems s' 2 = take 2 (elems example_two 2) @ init_value (CopyOf 42) # drop 2 (elems example_two 2)"
    "Size s' 2 = Size example_two 2 + 1"
    "p = ptr_add (vbegin s' 2) 2" "slot_at s' p = Some (Live (init_value (CopyOf 42)))"
    by blast+
  then have "elems s' 2 = [7, 8, 42, 9, 5, 6]" "Size s' 2 = 6"
    "p = ptr_add (vbegin s' 2) 2" "slot_at s' p = Some (Live 42)"
    by (simp_all add: example_two_ok v)
  with ok h(1-3) example_int_never_raises c show ?thesis
    by blast
qed

subsection \<open>\<open>PushBack\<close> and sequences of pushes\<close>

lemma PushBack_spec:
  assumes "mem_ok s" and "vec_ok s this"
  shows "post (PushBack T this v s)
     (\<lambda>u s'. Size s' this = Size s this + 1 \<and> elems s' this = elems s this @ [v]
        \<and> vec_ok s' this \<and> mem_ok s'
        \<and> Capacity s' this =
            (if Size s this + 1 \<le> Capacity s this then Capacity s this
             else if Size s this = 0 then 1 else Size s this * 2)
        \<and> avail s' + Capacity s' this = avail s + Capacity s this)
     (\<lambda>e s'. (e = BadAlloc \<and> s' = s \<and> Capacity s this < Size s this + 1
           \<and> avail s < (if Size s this = 0 then Suc 0 else Size s this * 2)) \<or>
        (e = ElemThrow \<and> can_raise T))"
  unfolding PushBack_def
  by (rule post_and_then, rule post_weaken [OF EmplaceBack_spec [OF assms]]) auto

lemma push_all_spec:
  "mem_ok s \<Longrightarrow> vec_ok s this \<Longrightarrow>
   post (push_all T this vs s)
     (\<lambda>u s'. Size s' this = Size s this + length vs \<and> elems s' this = elems s this @ vs
        \<and> vec_ok s' this \<and> mem_ok s'
        \<and> Capacity s this \<le> Capacity s' this
        \<and> (Capacity s this = capacity_after_pushes (Size s this) \<longrightarrow>
             Capacity s' this = capacity_after_pushes (Size s' this))
        \<and> avail s' + Capacity s' this = avail s + Capacity s this)
     (\<lambda>e s'. (e = BadAlloc \<and> avail s + Capacity s this < 3 * (Size s this + length vs)) \<or>
        (e = ElemThrow \<and> can_raise T))"
proof (induction vs arbitrary: s)
  case Nil
  then show ?case by simp
next
  case (Cons v vs)
  note pb = PushBack_spec [OF Cons.prems, of T v]
  have le: "Size s this \<le> Capacity s this"
    using Cons.prems(2) vec_okD [of s this] by simp
  from pb show ?case
  proof (cases rule: post_cases)
    case (Ok u s1)
    then have z1: "Size s1 this = Size s this + 1" and e1: "elems s1 this = elems s this @ [v]"
      and v1: "vec_ok s1 this" and m1: "mem_ok s1"
      and c1: "Capacity s1 this =
            (if Size s this + 1 \<le> Capacity s this then Capacity s this
             else if Size s this = 0 then 1 else Size s this * 2)"
      and a1: "avail s1 + Capacity s1 this = avail s + Capacity s this"
      by simp_all
    have mono: "Capacity s this \<le> Capacity s1 this"
      using le by (simp add: c1)
    have grow: "Capacity s1 this = capacity_after_pushes (Size s1 this)"
      if "Capacity s this = capacity_after_pushes (Size s this)"
      using that [symmetric] by (simp add: z1 c1 max_def)
    have eq: "push_all T this (v # vs) s = push_all T this vs s1"
      by (simp add: Ok(1))
    show ?thesis
      unfolding eq
    proof (rule post_weaken [OF Cons.IH [OF m1 v1]], goal_cases)
      case (1 x s')
      then show ?case using mono grow by (simp add: z1 e1 a1)
    next
      case (2 e s')
      then show ?case by (simp add: z1 a1)
    qed
  next
    case (Raise e s1)
    have eq: "push_all T this (v # vs) s = Raise e s1"
      by (simp add: Raise(1))
    show ?thesis
      unfolding eq using Raise(2) le by (auto split: if_splits)
  qed
qed

lemma capacity_after_pushes_pow2:
  "0 < n \<Longrightarrow> \<exists>k. capacity_after_pushes n = 2 ^ k \<and> n \<le> 2 ^ k \<and> 2 ^ k < 2 * n"
proof (induction n)
  case 0
  then show ?case by simp
next
  case (Suc n)
  show ?case
  proof (cases "n = 0")
    case True
    then show ?thesis by (auto intro: exI [of _ 0])
  next
    case False
    then obtain k where k: "capacity_after_pushes n = 2 ^ k" "n \<le> 2 ^ k" "2 ^ k < 2 * n"
      using Suc.IH by auto
    show ?thesis
    proof (cases "capacity_after_pushes n < Suc n")
      case True
      then have "n = 2 ^ k" using k by simp
      then have "capacity_after_pushes (Suc n) = 2 ^ Suc k \<and> Suc n \<le> 2 ^ Suc k
          \<and> 2 ^ Suc k < 2 * Suc n"
        using True False by (simp add: max_def)
      then show ?thesis by blast
    next
      case False
      then have "capacity_after_pushes (Suc n) = 2 ^ k \<and> Suc n \<le> 2 ^ k \<and> 2 ^ k < 2 * Suc n"
        using k by simp
      then show ?thesis by blast
    qed
  qed
qed

text \<open>
  Claim C2. For a vector that satisfies the class invariant, \<open>EmplaceBack\<close>,
  both overloads of \<open>PushBack\<close>, and every sequence of \<open>PushBack\<close> calls are
  defined; they return normally when no operation of the element type throws
  and the allocator has room for the blocks requested. After one \<open>PushBack\<close> the
  size is one more, it is at most the capacity, and the elements are the former
  ones followed by the value pushed; after a sequence of calls the size has
  grown by the number of calls and the elements are the former ones followed by
  the values pushed, in the order of the calls. The pointer returned by
  \<open>EmplaceBack\<close> is \<open>end() - 1\<close> of the vector as it is now, and the slot there
  holds the new element, which is the last one.
\<close>

theorem PushBack_appends:
  assumes "mem_ok s" and "vec_ok s this"
    and "r = PushBack T this v s \<or> r = PushBack_rvalue T this v s"
  shows "r \<noteq> Undefined \<and> push_all T this vs s \<noteq> Undefined \<and> EmplaceBack T this a s \<noteq> Undefined
     \<and> (\<not> can_raise T \<and> (Size s this < Capacity s this
            \<or> (if Size s this = 0 then 1 else Size s this * 2) \<le> avail s)
          \<longrightarrow> (\<exists>s'. r = Ok () s') \<and> (\<exists>p s'. EmplaceBack T this a s = Ok p s'))
     \<and> (\<not> can_raise T \<and> 3 * (Size s this + length vs) \<le> avail s + Capacity s this
          \<longrightarrow> (\<exists>s'. push_all T this vs s = Ok () s'))
     \<and> (\<forall>s'. r = Ok () s' \<longrightarrow>
          Size s' this = Size s this + 1 \<and> Size s' this \<le> Capacity s' this
          \<and> elems s' this = elems s this @ [v] \<and> vec_ok s' this \<and> mem_ok s')
     \<and> (\<forall>s'. push_all T this vs s = Ok () s' \<longrightarrow>
          Size s' this = Size s this + length vs \<and> Size s' this \<le> Capacity s' this
          \<and> elems s' this = elems s this @ vs \<and> vec_ok s' this \<and> mem_ok s')
     \<and> (\<forall>p s'. EmplaceBack T this a s = Ok p s' \<longrightarrow>
          ptr_minus (vend s' this) 1 = Some p \<and> slot_at s' p = Some (Live (init_value a))
          \<and> Size s' this = Size s this + 1 \<and> Size s' this \<le> Capacity s' this
          \<and> elems s' this = elems s this @ [init_value a]
          \<and> last (elems s' this) = init_value a)"
proof -
  note eb = EmplaceBack_spec [OF assms(1,2)]
  note pa = push_all_spec [OF assms(1,2), of T vs]
  have pr: "post r
     (\<lambda>u s'. Size s' this = Size s this + 1 \<and> elems s' this = elems s this @ [v]
        \<and> vec_ok s' this \<and> mem_ok s')
     (\<lambda>e s'. (e = BadAlloc \<and> s' = s \<and> Capacity s this < Size s this + 1
           \<and> avail s < (if Size s this = 0 then Suc 0 else Size s this * 2)) \<or>
        (e = ElemThrow \<and> can_raise T))"
    using assms(3)
  proof
    assume a: "r = PushBack T this v s"
    show ?thesis
      unfolding a PushBack_def
      by (rule post_and_then, rule post_weaken [OF eb [of T "CopyOf v"]]) auto
  next
    assume a: "r = PushBack_rvalue T this v s"
    show ?thesis
      unfolding a PushBack_rvalue_def
      by (rule post_and_then, rule post_weaken [OF eb [of T "MoveOf v"]]) auto
  qed
  have d: "r \<noteq> Undefined" "push_all T this vs s \<noteq> Undefined" "EmplaceBack T this a s \<noteq> Undefined"
    using pr pa eb [of T a] by auto
  have t1: "\<not> can_raise T \<and> (Size s this < Capacity s this
            \<or> (if Size s this = 0 then 1 else Size s this * 2) \<le> avail s)
          \<longrightarrow> (\<exists>s'. r = Ok () s') \<and> (\<exists>p s'. EmplaceBack T this a s = Ok p s')"
  proof (intro impI conjI)
    assume h: "\<not> can_raise T \<and> (Size s this < Capacity s this
            \<or> (if Size s this = 0 then 1 else Size s this * 2) \<le> avail s)"
    show "\<exists>s'. r = Ok () s'"
      using pr h by (cases r) (auto split: if_splits)
    show "\<exists>p s'. EmplaceBack T this a s = Ok p s'"
      using eb [of T a] h by (cases "EmplaceBack T this a s") (auto split: if_splits)
  qed
  have t2: "\<not> can_raise T \<and> 3 * (Size s this + length vs) \<le> avail s + Capacity s this
          \<longrightarrow> (\<exists>s'. push_all T this vs s = Ok () s')"
    using pa by (cases "push_all T this vs s") auto
  have k1: "Size s' this = Size s this + 1 \<and> Size s' this \<le> Capacity s' this
          \<and> elems s' this = elems s this @ [v] \<and> vec_ok s' this \<and> mem_ok s'"
    if "r = Ok () s'" for s'
    using pr that vec_okD(3) [of s' this] by auto
  have k2: "Size s' this = Size s this + length vs \<and> Size s' this \<le> Capacity s' this
          \<and> elems s' this = elems s this @ vs \<and> vec_ok s' this \<and> mem_ok s'"
    if "push_all T this vs s = Ok () s'" for s'
    using pa that vec_okD(3) [of s' this] by auto
  have k3: "ptr_minus (vend s' this) 1 = Some p \<and> slot_at s' p = Some (Live (init_value a))
          \<and> Size s' this = Size s this + 1 \<and> Size s' this \<le> Capacity s' this
          \<and> elems s' this = elems s this @ [init_value a]
          \<and> last (elems s' this) = init_value a"
    if "EmplaceBack T this a s = Ok p s'" for p s'
  proof -
    from eb [of T a] that have p: "p = (buffer_m (data_m (objs s' this)), Size s this)"
      and f: "slot_at s' p = Some (Live (init_value a))" "Size s' this = Size s this + 1"
        "elems s' this = elems s this @ [init_value a]" "vec_ok s' this"
      by auto
    have "ptr_minus (vend s' this) 1 = Some p"
      using f(2) by (simp add: ptr_minus_def vend_def p Size_def)
    then show ?thesis
      using f vec_okD(3) [of s' this] by simp
  qed
  show ?thesis
    using d t1 t2 k1 k2 k3 by blast
qed

theorem PushBack_appends_witness:
  "mem_ok example_empty \<and> vec_ok example_empty 0 \<and> \<not> can_raise example_int
   \<and> (\<exists>s'. push_all example_int 0 [1, 2, 3] example_empty = Ok () s'
         \<and> elems s' 0 = [1, 2, 3] \<and> Size s' 0 = 3 \<and> Size s' 0 \<le> Capacity s' 0)
   \<and> (\<exists>s'. PushBack example_int 0 4 example_empty = Ok () s' \<and> elems s' 0 = [4] \<and> Size s' 0 = 1)
   \<and> (\<exists>p s'. EmplaceBack example_int 0 (Args 5) example_empty = Ok p s'
         \<and> ptr_minus (vend s' 0) 1 = Some p \<and> slot_at s' p = Some (Live 5))"
proof -
  have h: "mem_ok example_empty" "vec_ok example_empty 0"
    "PushBack example_int 0 4 example_empty = PushBack example_int 0 4 example_empty
     \<or> PushBack example_int 0 4 example_empty = PushBack_rvalue example_int 0 4 example_empty"
    by (simp_all add: example_empty_ok)
  have v: "Size example_empty 0 = 0" "Capacity example_empty 0 = 0" "avail example_empty = 64"
    by (simp_all add: Size_def Capacity_def example_empty_def default_vector_def
        RawMemory_default_def)
  have c: "Size example_empty 0 < Capacity example_empty 0
      \<or> (if Size example_empty 0 = 0 then 1 else Size example_empty 0 * 2) \<le> avail example_empty"
    "3 * (Size example_empty 0 + length [1, 2, 3 :: int]) \<le> avail example_empty + Capacity example_empty 0"
    by (simp_all add: v)
  note e = PushBack_appends [OF h, where vs = "[1, 2, 3]" and a = "Args 5"]
  from e example_int_never_raises c obtain s1 s2 p s3 where
    ok: "push_all example_int 0 [1, 2, 3] example_empty = Ok () s1"
      "PushBack example_int 0 4 example_empty = Ok () s2"
      "EmplaceBack example_int 0 (Args 5) example_empty = Ok p s3"
    by blast
  from e ok have
    "elems s1 0 = elems example_empty 0 @ [1, 2, 3]"
    "Size s1 0 = Size example_empty 0 + length [1, 2, 3 :: int]" "Size s1 0 \<le> Capacity s1 0"
    "elems s2 0 = elems example_empty 0 @ [4]" "Size s2 0 = Size example_empty 0 + 1"
    "ptr_minus (vend s3 0) 1 = Some p" "slot_at s3 p = Some (Live (init_value (Args 5)))"
    by blast+
  then have "elems s1 0 = [1, 2, 3]" "Size s1 0 = 3" "Size s1 0 \<le> Capacity s1 0"
    "elems s2 0 = [4]" "Size s2 0 = 1"
    "ptr_minus (vend s3 0) 1 = Some p" "slot_at s3 p = Some (Live 5)"
    by (simp_all add: example_empty_ok v)
  with ok h(1,2) example_int_never_raises show ?thesis
    by blast
qed

subsection \<open>\<open>operator=(const Vector&)\<close> without reallocation\<close>

lemma std_copy_spec:
  assumes "a \<noteq> b" "heap s a = Some (spre @ map Live vs @ srest)"
    "heap s b = Some (dpre @ map Live olds @ drest)" "length olds = length vs"
    "p = (a, length spre)" "q = (a, length spre + length vs)" "d = (b, length dpre)"
  shows "post (std_copy T p q d s)
       (\<lambda>u s'. heap s' = (heap s)(b := Some (dpre @ map Live vs @ drest))
          \<and> log s' = log s @ map CopyAssign vs \<and> frame s s')
       (\<lambda>e s'. e = ElemThrow \<and> can_raise T)"
  using copy_loop_block [OF assms(1-4), of T]
  by (simp add: std_copy_def ptr_diff_def assms(5-))

lemma Vector_assign_in_place:
  assumes mem: "mem_ok s" and okt: "vec_ok s this" and okr: "vec_ok s rhs" and ne: "this \<noteq> rhs"
    and own: "buffer_m (data_m (objs s this)) = buffer_m (data_m (objs s rhs)) \<longrightarrow>
              buffer_m (data_m (objs s this)) = 0"
    and fit: "Size s rhs \<le> Capacity s this"
  shows "post (Vector_assign T this rhs s)
     (\<lambda>u s'. objs s' = (objs s)(this := (objs s this)\<lparr>size_m := Size s rhs\<rparr>)
        \<and> heap s' = (heap s)(buffer_m (data_m (objs s this)) :=
             Some (map Live (elems s rhs) @ replicate (Capacity s this - Size s rhs) Raw))
        \<and> next_addr s' = next_addr s \<and> avail s' = avail s \<and> slot_bytes s' = slot_bytes s
        \<and> log s' = log s @ map CopyAssign (take (Size s this) (elems s rhs)) @
             (if Size s this \<le> Size s rhs then map CopyCtor (drop (Size s this) (elems s rhs))
              else map Dtor (drop (Size s rhs) (elems s this))))
     (\<lambda>e s'. e = ElemThrow \<and> can_raise T)"
proof -
  define xs where "xs = elems s this"
  define ys where "ys = elems s rhs"
  define n where "n = length xs"
  define m where "m = length ys"
  define k where "k = Capacity s this - Size s this"
  define kr where "kr = Capacity s rhs - Size s rhs"
  define bb where "bb = buffer_m (data_m (objs s this))"
  define ba where "ba = buffer_m (data_m (objs s rhs))"
  have sz: "size_m (objs s this) = n" and cp: "capacity_m (data_m (objs s this)) = n + k"
    and hb: "heap s bb = Some (map Live xs @ replicate k Raw)"
    using okt vec_okD [of s this] by (simp_all add: xs_def n_def k_def bb_def Size_def Capacity_def)
  have szr: "size_m (objs s rhs) = m"
    and hbr: "heap s ba = Some (map Live ys @ replicate kr Raw)"
    using okr vec_okD [of s rhs] by (simp_all add: ys_def m_def kr_def ba_def Size_def Capacity_def)
  have S: "Size s this = n" "Capacity s this = n + k" "Size s rhs = m"
    by (simp_all add: Size_def Capacity_def sz cp szr)
  have fit': "m \<le> n + k" using fit by (simp add: S)
  have lxs: "length xs = n" and lys: "length ys = m" by (simp_all add: n_def m_def)
  have c1: "(this \<noteq> rhs) = True" using ne by simp
  have c2: "(Capacity s this < Size s rhs) = False" using fit by simp
  have i0: "(c, 0) = (c, length ([] :: 'a slot list))" for c :: nat by simp
  have tk: "map f (take j zs) @ map f (drop j zs) = map f zs"
    "map f (take j zs) @ map f (drop j zs) @ r = map f zs @ r" for f :: "'a \<Rightarrow> 'b" and j zs r
    by (simp_all flip: map_append append_assoc)
  show ?thesis
  proof (cases "bb = ba")
    case True
    then have z: "bb = 0" "ba = 0" using own by (simp_all add: bb_def ba_def)
    have "n = 0" "k = 0" "m = 0"
      using hb hbr null_block [OF mem] by (simp_all add: z n_def m_def)
    then have e: "xs = []" "ys = []" by (simp_all add: n_def m_def)
    have h0: "(heap s)(0 := Some []) = heap s"
      using null_block [OF mem] by (simp add: fun_upd_idem)
    have b0: "buffer_m (data_m (objs s this)) = 0" using z by (simp add: bb_def)
    show ?thesis
      unfolding xs_def [symmetric] ys_def [symmetric] S
      using ne \<open>n = 0\<close> \<open>k = 0\<close> \<open>m = 0\<close>
      by (simp add: Vector_assign_def S e h0 b0 std_copy_def ptr_diff_def ptr_add_def vbegin_def
          and_then_def sz)
  next
    case False
    then have ab: "ba \<noteq> bb" by simp
    show ?thesis
    proof (cases "n \<le> m")
      case True
      have c3: "(Size s this \<le> Size s rhs) = True" using True by (simp add: S)
      have ha: "heap s ba = Some ([] @ map Live (take n ys) @ (map Live (drop n ys) @ replicate kr Raw))"
        using hbr by (simp add: tk)
      have hbb: "heap s bb = Some ([] @ map Live xs @ replicate k Raw)"
        using hb by simp
      have lo: "length xs = length (take n ys)" using True by (simp add: lxs lys)
      have p: "(buffer_m (data_m (objs s rhs)), 0) = (ba, length ([] :: 'a slot list))"
        by (simp add: ba_def)
      have q: "(buffer_m (data_m (objs s rhs)), size_m (objs s this)) =
          (ba, length ([] :: 'a slot list) + length (take n ys))"
        using True by (simp add: ba_def sz lys)
      have d: "(buffer_m (data_m (objs s this)), 0) = (bb, length ([] :: 'a slot list))"
        by (simp add: bb_def)
      show ?thesis
        apply (simp only: Vector_assign_def c1 c2 c3 if_True if_False)
        apply (simp only: vbegin_def vend_def ptr_add_def fst_conv snd_conv add_0 Size_def)
      proof (rule post_and_then, rule post_and_then,
          rule post_weaken [OF std_copy_spec [OF ab ha hbb lo p q d]], goal_cases)
        case (2 e s1)
        then show ?case by simp
      next
        case (1 u s1)
        then have H1: "heap s1 = (heap s)(bb := Some (map Live (take n ys) @ replicate k Raw))"
          and l1: "log s1 = log s @ map CopyAssign (take n ys)" and f1: "frame s s1"
          by simp_all
        have o1: "objs s1 = objs s" using f1 by (simp add: frame_def)
        have ab1: "buffer_m (data_m (objs s1 rhs)) \<noteq> buffer_m (data_m (objs s1 this))"
          using ab by (simp add: o1 ba_def bb_def)
        have ha1: "heap s1 (buffer_m (data_m (objs s1 rhs))) =
            Some (map Live (take n ys) @ map Live (drop n ys) @ replicate kr Raw)"
          using ab hbr by (simp add: o1 ba_def [symmetric] H1 tk)
        have i1: "size_m (objs s1 this) = length (map Live (take n ys))"
          using True by (simp add: o1 sz lys)
        have "replicate k (Raw :: 'a slot) = replicate (m - n) Raw @ replicate (k - (m - n)) Raw"
          using True fit' by (simp flip: replicate_add)
        then have hb1: "heap s1 (buffer_m (data_m (objs s1 this))) =
            Some (map Live (take n ys) @
                  replicate (size_m (objs s1 rhs) - size_m (objs s1 this)) Raw @
                  replicate (k - (m - n)) Raw)"
          by (simp add: o1 bb_def [symmetric] H1 sz szr)
        have n1: "size_m (objs s1 rhs) - size_m (objs s1 this) = length (drop n ys)"
          by (simp add: o1 sz szr lys)
        show ?case
        proof (rule post_weaken [OF uninitialized_copy_n_spec [OF ab1 ha1 i1 hb1 i1 n1]], goal_cases)
          case (2 e s2)
          then show ?case by simp
        next
          case (1 u s2)
          then have H2: "heap s2 = (heap s)(bb := Some (map Live ys @ replicate (k - (m - n)) Raw))"
            and l2: "log s2 = log s @ map CopyAssign (take n ys) @ map CopyCtor (drop n ys)"
            and f2: "frame s1 s2"
            by (simp_all add: o1 bb_def [symmetric] H1 l1 tk)
          have r2: "objs s2 = objs s" "next_addr s2 = next_addr s" "avail s2 = avail s"
            "slot_bytes s2 = slot_bytes s"
            using f2 f1 by (simp_all add: frame_def)
          have ar: "n + k - m = k - (m - n)" using True fit' by simp
          show ?case
            unfolding post_Ok
            using True by (simp add: H2 l2 r2 S szr sz ar bb_def [symmetric] ys_def [symmetric])
        qed
      qed
    next
      case False
      then have lt: "m < n" by simp
      have c3: "(Size s this \<le> Size s rhs) = False" using False by (simp add: S)
      have ha: "heap s ba = Some ([] @ map Live ys @ replicate kr Raw)"
        using hbr by simp
      have hbb: "heap s bb = Some ([] @ map Live (take m xs) @ (map Live (drop m xs) @ replicate k Raw))"
        using hb by (simp add: tk)
      have lo: "length (take m xs) = length ys" using lt by (simp add: lxs lys)
      have p: "(buffer_m (data_m (objs s rhs)), 0) = (ba, length ([] :: 'a slot list))"
        by (simp add: ba_def)
      have q: "(buffer_m (data_m (objs s rhs)), size_m (objs s rhs)) =
          (ba, length ([] :: 'a slot list) + length ys)"
        by (simp add: ba_def szr lys)
      have d: "(buffer_m (data_m (objs s this)), 0) = (bb, length ([] :: 'a slot list))"
        by (simp add: bb_def)
      show ?thesis
        apply (simp only: Vector_assign_def c1 c2 c3 if_True if_False)
        apply (simp only: vbegin_def vend_def ptr_add_def fst_conv snd_conv add_0 Size_def)
      proof (rule post_and_then, rule post_and_then,
          rule post_weaken [OF std_copy_spec [OF ab ha hbb lo p q d]], goal_cases)
        case (2 e s1)
        then show ?case by simp
      next
        case (1 u s1)
        then have H1: "heap s1 = (heap s)(bb := Some (map Live ys @ map Live (drop m xs) @ replicate k Raw))"
          and l1: "log s1 = log s @ map CopyAssign ys" and f1: "frame s s1"
          by simp_all
        have o1: "objs s1 = objs s" using f1 by (simp add: frame_def)
        have hd1: "heap s1 (buffer_m (data_m (objs s1 this))) =
            Some (map Live ys @ map Live (drop m xs) @ replicate k Raw)"
          by (simp add: o1 bb_def [symmetric] H1)
        have i1: "size_m (objs s1 rhs) = length (map Live ys)"
          by (simp add: o1 szr lys)
        have n1: "size_m (objs s1 this) - size_m (objs s1 rhs) = length (drop m xs)"
          by (simp add: o1 sz szr lxs)
        show ?case
        proof (rule post_weaken [OF destroy_n_spec [OF hd1 i1 n1]], goal_cases)
          case (2 e s2)
          then show ?case by simp
        next
          case (1 u s2)
          then have H2: "heap s2 = (heap s)(bb := Some (map Live ys @ replicate (n - m) Raw @ replicate k Raw))"
            and l2: "log s2 = log s @ map CopyAssign ys @ map Dtor (drop m xs)"
            and f2: "frame s1 s2"
            by (simp_all add: o1 bb_def [symmetric] H1 l1 lxs)
          have r2: "objs s2 = objs s" "next_addr s2 = next_addr s" "avail s2 = avail s"
            "slot_bytes s2 = slot_bytes s"
            using f2 f1 by (simp_all add: frame_def)
          have ar: "replicate (n - m) (Raw :: 'a slot) @ replicate k Raw = replicate (n + k - m) Raw"
            using lt by (simp flip: replicate_add)
          show ?case
            unfolding post_Ok
            using lt by (simp add: H2 l2 r2 S szr sz ar lys bb_def [symmetric] ys_def [symmetric]
                xs_def [symmetric])
        qed
      qed
    qed
  qed
qed

lemma example_short_ok: "mem_ok example_short" "vec_ok example_short 0" "vec_ok example_short 2"
  "elems example_short 0 = [10, 20, 30]" "elems example_short 2 = [7, 8]"
proof -
  show "mem_ok example_short"
    by (simp add: mem_ok_def example_allocated) (simp add: example_short_def)
  show "vec_ok example_short 0" "vec_ok example_short 2"
    "elems example_short 0 = [10, 20, 30]" "elems example_short 2 = [7, 8]"
    by (simp_all add: vec_ok_def elems_def example_short_def default_vector_def
        numeral_3_eq_3 eval_nat_numeral)
qed

text \<open>
  Claim C5. Let \<open>this\<close> and \<open>rhs\<close> be two vectors that satisfy the class invariant
  and own different blocks, with \<open>rhs.size \<le> this.capacity\<close>. Copy-assignment
  is defined, and it returns normally when no operation of the element type
  throws. When it returns, nothing was allocated or released: \<open>this\<close> has the
  buffer and the capacity it had. If \<open>rhs.size \<ge> this.size\<close>, the first
  \<open>this.size\<close> elements of \<open>rhs\<close> were copy-assigned, front to back, and then
  the others were copy-constructed; if \<open>rhs.size < this.size\<close>, the elements of
  \<open>rhs\<close> were copy-assigned and then the elements of \<open>this\<close> from index
  \<open>rhs.size\<close> on were destroyed. The size of \<open>this\<close> is then \<open>rhs.size\<close> and its
  elements are those of \<open>rhs\<close>, which is unchanged.
\<close>

theorem copy_assign_in_place:
  assumes "mem_ok s" and "vec_ok s this" and "vec_ok s rhs" and "this \<noteq> rhs"
    and "buffer_m (data_m (objs s this)) = buffer_m (data_m (objs s rhs)) \<longrightarrow>
         buffer_m (data_m (objs s this)) = 0"
    and "Size s rhs \<le> Capacity s this"
  shows "Vector_assign T this rhs s \<noteq> Undefined
     \<and> (\<not> can_raise T \<longrightarrow> (\<exists>s'. Vector_assign T this rhs s = Ok () s'))
     \<and> (\<forall>s'. Vector_assign T this rhs s = Ok () s' \<longrightarrow>
          Capacity s' this = Capacity s this \<and> data_m (objs s' this) = data_m (objs s this)
          \<and> next_addr s' = next_addr s \<and> avail s' = avail s
          \<and> Size s' this = Size s rhs \<and> elems s' this = elems s rhs
          \<and> Size s' rhs = Size s rhs \<and> elems s' rhs = elems s rhs
          \<and> vec_ok s' this \<and> vec_ok s' rhs \<and> mem_ok s'
          \<and> log s' = log s @
               (if Size s this \<le> Size s rhs
                then map CopyAssign (take (Size s this) (elems s rhs)) @
                     map CopyCtor (drop (Size s this) (elems s rhs))
                else map CopyAssign (elems s rhs) @
                     map Dtor (drop (Size s rhs) (elems s this))))"
proof -
  note sp = Vector_assign_in_place [OF assms, of T]
  define bb where "bb = buffer_m (data_m (objs s this))"
  define ba where "ba = buffer_m (data_m (objs s rhs))"
  define ys where "ys = elems s rhs"
  define j where "j = Capacity s this - Size s rhs"
  have lr: "length ys = Size s rhs"
    and hr: "heap s ba = Some (map Live ys @ replicate (Capacity s rhs - Size s rhs) Raw)"
    using assms(3) vec_okD [of s rhs] by (simp_all add: ys_def ba_def)
  have ht: "heap s bb = Some (map Live (elems s this) @ replicate (Capacity s this - Size s this) Raw)"
    and lt: "length (elems s this) = Size s this" and le: "Size s this \<le> Capacity s this"
    using assms(2) vec_okD [of s this] by (simp_all add: bb_def)
  have d: "Vector_assign T this rhs s \<noteq> Undefined"
    using sp by auto
  have t: "\<not> can_raise T \<longrightarrow> (\<exists>s'. Vector_assign T this rhs s = Ok () s')"
    using sp by (cases "Vector_assign T this rhs s") auto
  have k: "Capacity s' this = Capacity s this \<and> data_m (objs s' this) = data_m (objs s this)
          \<and> next_addr s' = next_addr s \<and> avail s' = avail s
          \<and> Size s' this = Size s rhs \<and> elems s' this = elems s rhs
          \<and> Size s' rhs = Size s rhs \<and> elems s' rhs = elems s rhs
          \<and> vec_ok s' this \<and> vec_ok s' rhs \<and> mem_ok s'
          \<and> log s' = log s @
               (if Size s this \<le> Size s rhs
                then map CopyAssign (take (Size s this) (elems s rhs)) @
                     map CopyCtor (drop (Size s this) (elems s rhs))
                else map CopyAssign (elems s rhs) @
                     map Dtor (drop (Size s rhs) (elems s this)))"
    if ok: "Vector_assign T this rhs s = Ok () s'" for s'
  proof -
    from sp ok have o: "objs s' = (objs s)(this := (objs s this)\<lparr>size_m := Size s rhs\<rparr>)"
      and h: "heap s' = (heap s)(bb := Some (map Live ys @ replicate j Raw))"
      and f: "next_addr s' = next_addr s" "avail s' = avail s" "slot_bytes s' = slot_bytes s"
      and l: "log s' = log s @ map CopyAssign (take (Size s this) ys) @
             (if Size s this \<le> Size s rhs then map CopyCtor (drop (Size s this) ys)
              else map Dtor (drop (Size s rhs) (elems s this)))"
      by (simp_all add: bb_def ys_def j_def)
    have ot: "objs s' this = (objs s this)\<lparr>size_m := Size s rhs\<rparr>"
      and orr: "objs s' rhs = objs s rhs"
      using assms(4) by (simp_all add: o)
    have hb: "heap s' (buffer_m (data_m (objs s' this))) = Some (map Live ys @ replicate j Raw)"
      by (simp add: ot h bb_def [symmetric])
    have sz: "size_m (objs s' this) = length ys" by (simp add: ot lr)
    have cp: "capacity_m (data_m (objs s' this)) = length ys + j"
      using assms(6) by (simp add: ot lr j_def Capacity_def)
    note vt = vec_okI [OF hb sz cp]
    have same: "heap s' = heap s" if z: "Capacity s this = 0"
    proof -
      have "Size s this = 0" "Size s rhs = 0" "j = 0" using z le assms(6) by (simp_all add: j_def)
      then have "ys = []" "heap s bb = Some []" using lr lt ht z by simp_all
      then show ?thesis using \<open>j = 0\<close> by (simp add: h fun_upd_idem)
    qed
    have hra: "heap s' ba = heap s ba"
    proof (cases "bb = ba")
      case True
      then have "bb = 0" using assms(5) by (simp add: bb_def ba_def)
      then have "Capacity s this = 0"
        using ht null_block [OF assms(1)] lt le by simp
      then show ?thesis by (simp add: same)
    next
      case False
      then show ?thesis by (simp add: h)
    qed
    have er: "elems s' rhs = elems s rhs"
      using hra by (simp add: elems_def orr ba_def split: option.splits)
    have vr: "vec_ok s' rhs"
      using assms(3) hra by (simp add: vec_ok_def er orr ba_def)
    have m: "mem_ok s'"
      using lr lt le assms(6) by (intro mem_ok_in_place [OF assms(1) ht h _ f]) (simp add: j_def)
    have tk: "take (Size s this) ys = ys" if "\<not> Size s this \<le> Size s rhs"
      using that lr by simp
    show ?thesis
      using vt er vr m f l lr tk
      by (simp add: Size_def Capacity_def ot orr ys_def [symmetric])
  qed
  show ?thesis
    by (rule conjI, rule d, rule conjI, rule t, intro allI impI, erule k)
qed

theorem copy_assign_in_place_witness:
  "mem_ok example_two \<and> vec_ok example_two 2 \<and> vec_ok example_two 0 \<and> (2 :: nat) \<noteq> 0
   \<and> Size example_two 0 \<le> Capacity example_two 2 \<and> \<not> can_raise example_int
   \<and> (\<exists>s'. Vector_assign example_int 2 0 example_two = Ok () s'
         \<and> elems s' 2 = [10, 20, 30] \<and> Size s' 2 = 3 \<and> Capacity s' 2 = 8
         \<and> log s' = [CopyAssign 10, CopyAssign 20, CopyAssign 30, Dtor 5, Dtor 6])
   \<and> (\<exists>s'. Vector_assign example_int 2 0 example_short = Ok () s'
         \<and> elems s' 2 = [10, 20, 30] \<and> Size s' 2 = 3 \<and> Capacity s' 2 = 8
         \<and> log s' = [CopyAssign 10, CopyAssign 20, CopyCtor 30])"
proof -
  have v: "Size example_two 0 = 3" "Capacity example_two 2 = 8" "Size example_two 2 = 5"
    "log example_two = []"
    "Size example_short 0 = 3" "Capacity example_short 2 = 8" "Size example_short 2 = 2"
    "log example_short = []"
    by (simp_all add: Size_def Capacity_def example_two_def example_short_def)
  have h: "mem_ok example_two" "vec_ok example_two 2" "vec_ok example_two 0" "(2 :: nat) \<noteq> 0"
    "buffer_m (data_m (objs example_two 2)) = buffer_m (data_m (objs example_two 0)) \<longrightarrow>
         buffer_m (data_m (objs example_two 2)) = 0"
    "Size example_two 0 \<le> Capacity example_two 2"
    by (simp_all add: example_two_ok v) (simp add: example_two_def)
  have h': "mem_ok example_short" "vec_ok example_short 2" "vec_ok example_short 0" "(2 :: nat) \<noteq> 0"
    "buffer_m (data_m (objs example_short 2)) = buffer_m (data_m (objs example_short 0)) \<longrightarrow>
         buffer_m (data_m (objs example_short 2)) = 0"
    "Size example_short 0 \<le> Capacity example_short 2"
    by (simp_all add: example_short_ok v) (simp add: example_short_def)
  note e1 = copy_assign_in_place [OF h, of example_int]
  note e2 = copy_assign_in_place [OF h', of example_int]
  from e1 [THEN conjunct2, THEN conjunct1, rule_format, OF example_int_never_raises]
  obtain s1 where ok1: "Vector_assign example_int 2 0 example_two = Ok () s1" by blast
  from e2 [THEN conjunct2, THEN conjunct1, rule_format, OF example_int_never_raises]
  obtain s2 where ok2: "Vector_assign example_int 2 0 example_short = Ok () s2" by blast
  from e1 [THEN conjunct2, THEN conjunct2, rule_format, OF ok1]
  have r1: "elems s1 2 = [10, 20, 30] \<and> Size s1 2 = 3 \<and> Capacity s1 2 = 8
         \<and> log s1 = [CopyAssign 10, CopyAssign 20, CopyAssign 30, Dtor 5, Dtor 6]"
    by (simp add: v example_two_ok)
  from e2 [THEN conjunct2, THEN conjunct2, rule_format, OF ok2]
  have r2: "elems s2 2 = [10, 20, 30] \<and> Size s2 2 = 3 \<and> Capacity s2 2 = 8
         \<and> log s2 = [CopyAssign 10, CopyAssign 20, CopyCtor 30]"
    by (simp add: v example_short_ok)
  show ?thesis
    using h(1,2,3,4,6) example_int_never_raises ok1 r1 ok2 r2 by blast
qed

subsection \<open>Capacity growth\<close>

text \<open>
  Claim C4. When \<open>EmplaceBack\<close>, \<open>PushBack\<close> or \<open>Emplace\<close> is called on a vector
  whose capacity is less than \<open>size + 1\<close> and returns, the capacity is
  \<open>max(1, 2 * size)\<close>, for the size before the call: \<open>1\<close> for an empty vector,
  twice the size otherwise. When there is room the capacity stays. In both
  cases, and over a sequence of pushes, the capacity does not decrease. Each of
  the three returns when no operation of the element type throws and, if the
  vector is full, the allocator has room for the new block, and so does a
  sequence of pushes for which the allocator has room. A
  sequence of \<open>n\<close> pushes onto a vector of size and capacity \<open>0\<close> that returns
  ends with the capacity given by the growth rule of the specification, which
  for \<open>n > 0\<close> is the power of two with \<open>n \<le> 2 ^ k < 2 * n\<close>: the capacities
  run through \<open>1, 2, 4, 8, \<dots>\<close>.
\<close>

theorem capacity_doubles:
  assumes "mem_ok s" and "vec_ok s this" and "pos_n \<le> Size s this"
    and "cap' = (if Capacity s this < Size s this + 1 then max 1 (Size s this * 2)
                 else Capacity s this)"
  shows "(\<forall>p s'. EmplaceBack T this a s = Ok p s' \<longrightarrow>
            Capacity s' this = cap' \<and> Capacity s this \<le> Capacity s' this)
     \<and> (\<forall>s'. PushBack T this v s = Ok () s' \<longrightarrow>
            Capacity s' this = cap' \<and> Capacity s this \<le> Capacity s' this)
     \<and> (\<forall>p s'. Emplace T this (ptr_add (vbegin s this) pos_n) a s = Ok p s' \<longrightarrow>
            Capacity s' this = cap' \<and> Capacity s this \<le> Capacity s' this)
     \<and> (\<not> can_raise T \<and> (Size s this < Capacity s this
            \<or> (if Size s this = 0 then 1 else Size s this * 2) \<le> avail s)
          \<longrightarrow> (\<exists>p s'. EmplaceBack T this a s = Ok p s')
              \<and> (\<exists>s'. PushBack T this v s = Ok () s')
              \<and> (\<exists>p s'. Emplace T this (ptr_add (vbegin s this) pos_n) a s = Ok p s'))
     \<and> (\<not> can_raise T \<and> 3 * (Size s this + length vs) \<le> avail s + Capacity s this
          \<longrightarrow> (\<exists>s'. push_all T this vs s = Ok () s'))
     \<and> (\<forall>s'. push_all T this vs s = Ok () s' \<longrightarrow>
            Capacity s this \<le> Capacity s' this
            \<and> (Size s this = 0 \<and> Capacity s this = 0 \<longrightarrow>
                 Capacity s' this = capacity_after_pushes (length vs)
                 \<and> (vs \<noteq> [] \<longrightarrow> (\<exists>k. Capacity s' this = 2 ^ k \<and> length vs \<le> 2 ^ k
                        \<and> 2 ^ k < 2 * length vs))))"
proof -
  note eb = EmplaceBack_spec [OF assms(1,2), of T a]
  note pb = PushBack_spec [OF assms(1,2), of T v]
  note em = Emplace_spec [OF assms(1,2) refl assms(3), of T a]
  note pa = push_all_spec [OF assms(1,2), of T vs]
  have le: "Size s this \<le> Capacity s this"
    using assms(2) vec_okD [of s this] by simp
  have k1: "Capacity s' this = cap' \<and> Capacity s this \<le> Capacity s' this"
    if "EmplaceBack T this a s = Ok p s'" for p s'
    using eb that le by (auto simp: assms(4) max_def)
  have k2: "Capacity s' this = cap' \<and> Capacity s this \<le> Capacity s' this"
    if "PushBack T this v s = Ok () s'" for s'
    using pb that le by (auto simp: assms(4) max_def)
  have k3: "Capacity s' this = cap' \<and> Capacity s this \<le> Capacity s' this"
    if "Emplace T this (ptr_add (vbegin s this) pos_n) a s = Ok p s'" for p s'
    using em that le by (auto simp: assms(4) max_def)
  have t0: "\<not> can_raise T \<and> (Size s this < Capacity s this
            \<or> (if Size s this = 0 then 1 else Size s this * 2) \<le> avail s)
          \<longrightarrow> (\<exists>p s'. EmplaceBack T this a s = Ok p s')
              \<and> (\<exists>s'. PushBack T this v s = Ok () s')
              \<and> (\<exists>p s'. Emplace T this (ptr_add (vbegin s this) pos_n) a s = Ok p s')"
  proof (intro impI conjI)
    assume h: "\<not> can_raise T \<and> (Size s this < Capacity s this
            \<or> (if Size s this = 0 then 1 else Size s this * 2) \<le> avail s)"
    show "\<exists>p s'. EmplaceBack T this a s = Ok p s'"
      using eb h by (cases "EmplaceBack T this a s") (auto split: if_splits)
    show "\<exists>s'. PushBack T this v s = Ok () s'"
      using pb h by (cases "PushBack T this v s") (auto split: if_splits)
    show "\<exists>p s'. Emplace T this (ptr_add (vbegin s this) pos_n) a s = Ok p s'"
      using em h by (cases "Emplace T this (ptr_add (vbegin s this) pos_n) a s")
        (auto split: if_splits)
  qed
  have t: "\<not> can_raise T \<and> 3 * (Size s this + length vs) \<le> avail s + Capacity s this
          \<longrightarrow> (\<exists>s'. push_all T this vs s = Ok () s')"
    using pa by (cases "push_all T this vs s") auto
  have k4: "Capacity s this \<le> Capacity s' this
            \<and> (Size s this = 0 \<and> Capacity s this = 0 \<longrightarrow>
                 Capacity s' this = capacity_after_pushes (length vs)
                 \<and> (vs \<noteq> [] \<longrightarrow> (\<exists>k. Capacity s' this = 2 ^ k \<and> length vs \<le> 2 ^ k
                        \<and> 2 ^ k < 2 * length vs)))"
    if ok: "push_all T this vs s = Ok () s'" for s'
  proof -
    from pa ok have m: "Capacity s this \<le> Capacity s' this"
      and z: "Size s' this = Size s this + length vs"
      and g: "Capacity s this = capacity_after_pushes (Size s this) \<longrightarrow>
             Capacity s' this = capacity_after_pushes (Size s' this)"
      by simp_all
    have "Capacity s' this = capacity_after_pushes (length vs)
        \<and> (vs \<noteq> [] \<longrightarrow> (\<exists>k. Capacity s' this = 2 ^ k \<and> length vs \<le> 2 ^ k
                        \<and> 2 ^ k < 2 * length vs))"
      if e: "Size s this = 0 \<and> Capacity s this = 0"
    proof -
      have c: "Capacity s' this = capacity_after_pushes (length vs)"
        using g e z by simp
      show ?thesis
        using capacity_after_pushes_pow2 [of "length vs"] by (simp add: c)
    qed
    with m show ?thesis by blast
  qed
  show ?thesis
    using k1 k2 k3 t0 t k4 by blast
qed

theorem capacity_doubles_witness:
  "mem_ok example_empty \<and> vec_ok example_empty 0 \<and> \<not> can_raise example_int
   \<and> Size example_empty 0 = 0 \<and> Capacity example_empty 0 = 0
   \<and> (\<exists>s'. push_all example_int 0 [1, 2, 3, 4, 5] example_empty = Ok () s' \<and> Capacity s' 0 = 8)
   \<and> Size example_two 0 = 3 \<and> Capacity example_two 0 = 3
   \<and> (\<exists>s'. PushBack example_int 0 4 example_two = Ok () s' \<and> Capacity s' 0 = 6)
   \<and> (\<exists>p s'. Emplace example_int 0 (ptr_add (vbegin example_two 0) 1) (Args 4) example_two = Ok p s'
         \<and> Capacity s' 0 = 6)
   \<and> (\<exists>p s'. EmplaceBack example_int 0 (Args 4) example_two = Ok p s' \<and> Capacity s' 0 = 6)
   \<and> map capacity_after_pushes [1, 2, 3, 4, 5, 6, 7, 8, 9] = [1, 2, 4, 4, 8, 8, 8, 8, 16]"
proof -
  have h: "mem_ok example_empty" "vec_ok example_empty 0" "0 \<le> Size example_empty 0"
    by (simp_all add: example_empty_ok)
  have v: "Size example_empty 0 = 0" "Capacity example_empty 0 = 0" "avail example_empty = 64"
    "avail example_two = 53" "Size example_two 0 = 3" "Capacity example_two 0 = 3"
    by (simp_all add: Size_def Capacity_def example_empty_def example_two_def default_vector_def
        RawMemory_default_def)
  have h2: "mem_ok example_two" "vec_ok example_two 0" "1 \<le> Size example_two 0"
    by (simp_all add: example_two_ok v)
  have c: "\<not> can_raise example_int \<and> 3 * (Size example_empty 0 + length [1, 2, 3, 4, 5 :: int])
      \<le> avail example_empty + Capacity example_empty 0"
    "\<not> can_raise example_int \<and> (Size example_two 0 < Capacity example_two 0
      \<or> (if Size example_two 0 = 0 then 1 else Size example_two 0 * 2) \<le> avail example_two)"
    by (simp_all add: v example_int_never_raises)
  have cap: "map capacity_after_pushes [1, 2, 3, 4, 5, 6, 7, 8, 9] = [1, 2, 4, 4, 8, 8, 8, 8, 16]"
    by (simp add: eval_nat_numeral)
  have cap5: "capacity_after_pushes 5 = 8" using cap by simp
  note e1 = capacity_doubles [OF h refl, where T = example_int and vs = "[1, 2, 3, 4, 5]"
      and a = "Args 0" and v = 0]
  note e2 = capacity_doubles [OF h2 refl, where T = example_int and vs = "[4]"
      and a = "Args 4" and v = 4]
  note t1 = e1 [THEN conjunct2, THEN conjunct2, THEN conjunct2, THEN conjunct2, THEN conjunct1,
      rule_format, OF c(1)]
  note t2 = e2 [THEN conjunct2, THEN conjunct2, THEN conjunct2, THEN conjunct1, rule_format, OF c(2)]
  from t1 obtain s1 where ok1: "push_all example_int 0 [1, 2, 3, 4, 5] example_empty = Ok () s1"
    by blast
  from t2 obtain p3 s3 s2 p4 s4 where
    ok3: "EmplaceBack example_int 0 (Args 4) example_two = Ok p3 s3"
    and ok2: "PushBack example_int 0 4 example_two = Ok () s2"
    and ok4: "Emplace example_int 0 (ptr_add (vbegin example_two 0) 1) (Args 4) example_two = Ok p4 s4"
    by blast
  from e1 [THEN conjunct2, THEN conjunct2, THEN conjunct2, THEN conjunct2, THEN conjunct2,
      rule_format, OF ok1]
  have "Capacity s1 0 = capacity_after_pushes (length [1, 2, 3, 4, 5 :: int])"
    using v(1,2) by blast
  then have r1: "Capacity s1 0 = 8" by (simp add: cap5)
  from e2 [THEN conjunct2, THEN conjunct1, rule_format, OF ok2]
  have r2: "Capacity s2 0 = 6" by (simp add: v)
  from e2 [THEN conjunct1, rule_format, OF ok3]
  have r3: "Capacity s3 0 = 6" by (simp add: v)
  from e2 [THEN conjunct2, THEN conjunct2, THEN conjunct1, rule_format, OF ok4]
  have r4: "Capacity s4 0 = 6" by (simp add: v)
  show ?thesis
    using h(1,2) example_int_never_raises v(1,2,5,6) ok1 r1 ok2 r2 ok3 r3 ok4 r4 cap by blast
qed

subsection \<open>Transfers by move or by copy\<close>




subsection \<open>Exceptions during reallocation\<close>



subsection \<open>An allocation whose byte count wraps\<close>

text \<open>
  A request whose byte count wraps gets the block of the wrapped count: with
  \<open>n * sizeof(T) = 2^64 + r\<close> the block has \<open>r div sizeof(T)\<close> slots, fewer than
  the \<open>n\<close> asked for.
\<close>

lemma Allocate_wrapped:
  assumes "n \<noteq> 0" and "n * slot_bytes s = 2 ^ 64 + r" and "r < 2 ^ 64"
  shows "Allocate n s =
     (if avail s < r div slot_bytes s then Raise BadAlloc s
      else Ok (next_addr s)
             (s\<lparr>heap := (heap s)(next_addr s := Some (replicate (r div slot_bytes s) Raw)),
                next_addr := Suc (next_addr s),
                avail := avail s - r div slot_bytes s\<rparr>))"
proof -
  have "(n * slot_bytes s) mod 2 ^ 64 = r"
    using assms(3) by (simp only: assms(2) mod_add_self1 mod_less)
  then show ?thesis
    using assms(1) by (simp only: Allocate_def Let_def if_True simp_thms)
qed

end
